theory Spec2Isabelle
  imports
    Main
    "HOL-Library.Sublist"
    "HOL-Library.AList"
    "HOL-Library.Multiset"
    "HOL-Library.Char_ord"
    "HOL-Library.List_Lexorder"
    "HOL-Library.Product_Lexorder"
begin

section \<open>Parallel execution planner: shallow embedding\<close>

text \<open>
  The development embeds \<^verbatim>\<open>dev/dev_scripts/generate_parallel_execution_plan.py\<close>:
  the pattern matcher (\<^verbatim>\<open>FilePattern.matches\<close>, \<^verbatim>\<open>_patterns_conflict\<close>,
  \<^verbatim>\<open>_check_regex_pattern_overlap\<close>, \<^verbatim>\<open>_generate_and_test_paths\<close>), the loader
  (\<^verbatim>\<open>load_data\<close>), the priority topological sort and the greedy wave packer
  (\<^verbatim>\<open>generate_execution_plan\<close>).

  Python exceptions are values: every function that can raise returns
  \<open>py_error + 'a\<close>, with \<open>Inl\<close> the exception.
\<close>

subsection \<open>Exceptions\<close>

text \<open>
  \<open>ReError\<close> is \<^verbatim>\<open>re.error\<close>; \<open>OverflowError\<close> is the builtin of that name;
  \<open>KeyError k\<close> is a failed dictionary lookup of \<open>k\<close>;
  \<open>CircularDependency\<close> is \<^verbatim>\<open>ValueError("Circular dependency detected!")\<close>;
  \<open>NoAvailableTasks\<close> is
  \<^verbatim>\<open>ValueError("No available tasks - possible circular dependency!")\<close>.
  \<open>NotInFragment\<close> is no Python exception: it is the answer of the regular-expression
  model below on a pattern that lies outside the syntax it covers.
\<close>

datatype py_error =
    ReError
  | OverflowError
  | KeyError string
  | CircularDependency
  | NoAvailableTasks
  | NotInFragment

subsection \<open>Python string operations\<close>

definition newline :: char where
  "newline = CHR 0x0A"

definition bslash :: char where
  "bslash = CHR 0x5C"

text \<open>\<^verbatim>\<open>sub in s\<close> for strings.\<close>

fun str_in :: "string \<Rightarrow> string \<Rightarrow> bool" where
  "str_in sub [] = (sub = [])"
| "str_in sub (c # cs) = (prefix sub (c # cs) \<or> str_in sub cs)"

text \<open>\<^verbatim>\<open>s.lstrip(c)\<close> and \<^verbatim>\<open>s.rstrip(c)\<close> for a one-character argument.\<close>

definition lstrip :: "char \<Rightarrow> string \<Rightarrow> string" where
  "lstrip c s = dropWhile (\<lambda>x. x = c) s"

definition rstrip :: "char \<Rightarrow> string \<Rightarrow> string" where
  "rstrip c s = rev (dropWhile (\<lambda>x. x = c) (rev s))"

text \<open>\<^verbatim>\<open>s.replace(old, new)\<close>: the non-overlapping occurrences of \<open>old\<close>, left to
  right. Every call of the source has a non-empty \<open>old\<close>.\<close>

fun str_replace :: "string \<Rightarrow> string \<Rightarrow> string \<Rightarrow> string" where
  "str_replace old new [] = []"
| "str_replace old new (c # cs) =
     (if old \<noteq> [] \<and> prefix old (c # cs)
      then new @ str_replace old new (drop (length old) (c # cs))
      else c # str_replace old new cs)"

text \<open>\<^verbatim>\<open>s.split(d)\<close> for a one-character separator.\<close>

fun split_on :: "char \<Rightarrow> string \<Rightarrow> string list" where
  "split_on d [] = [[]]"
| "split_on d (c # cs) =
     (if c = d then [] # split_on d cs
      else (case split_on d cs of
              [] \<Rightarrow> [[c]]
            | w # ws \<Rightarrow> (c # w) # ws))"

text \<open>\<^verbatim>\<open>[p for p in base.split('/') if p]\<close>.\<close>

definition path_parts :: "string \<Rightarrow> string list" where
  "path_parts base = filter (\<lambda>p. p \<noteq> []) (split_on (CHR ''/'') base)"

subsection \<open>The regular-expression engine\<close>

text \<open>
  \<^verbatim>\<open>re.search\<close> belongs to the Python library, not to this program, so the matcher
  takes it as a parameter: an engine maps a pattern and a subject either to
  \<open>Inr b\<close>, the truth value of \<^verbatim>\<open>bool(re.search(pattern, subject))\<close>, or to \<open>Inl e\<close>,
  the exception the call raises. The general theorems hold for every engine.
\<close>

type_synonym re_engine = "string \<Rightarrow> string \<Rightarrow> py_error + bool"

text \<open>
  For evaluation at concrete inputs, \<open>re_search\<close> models CPython's \<^verbatim>\<open>re.search\<close> on
  a fragment of the pattern syntax: literal characters, \<^verbatim>\<open>.\<close>, a backslash before a
  character that is no ASCII letter or digit, the anchors \<^verbatim>\<open>^\<close> and \<^verbatim>\<open>$\<close>, character
  sets \<^verbatim>\<open>[...]\<close> and \<^verbatim>\<open>[^...]\<close> of plain members, and the repeats \<^verbatim>\<open>*\<close>, \<^verbatim>\<open>+\<close>, \<^verbatim>\<open>?\<close>,
  \<^verbatim>\<open>{m}\<close>, \<^verbatim>\<open>{m,}\<close>, \<^verbatim>\<open>{,n}\<close>, \<^verbatim>\<open>{m,n}\<close>, greedy or lazy. Groups, alternation, escapes of
  letters and digits, ranges inside sets and possessive repeats are outside the
  fragment and answer \<open>Inl NotInFragment\<close>.

  The parser follows \<^verbatim>\<open>re/_parser.py\<close>: a repeat with nothing before it, or after
  an anchor, or after another repeat, raises \<^verbatim>\<open>re.error\<close>; so do a trailing
  backslash, an unterminated set and a repeat whose minimum exceeds its maximum.
  A repeat count of \<^verbatim>\<open>MAXREPEAT\<close> (4294967295) or more raises \<^verbatim>\<open>OverflowError\<close>, which
  is not a subclass of \<^verbatim>\<open>re.error\<close>, and is raised before the check for the
  repeated item. A \<^verbatim>\<open>{\<close> that does not open a well-formed count is a literal.
\<close>

datatype atom = Lit char | AnyChar | Cls bool "char list" | Bol | Eol

text \<open>An item is an atom with its repeat bounds: minimum and maximum
  (\<open>None\<close>: unbounded). \<open>None\<close> in place of the bounds: not repeated.\<close>

type_synonym item = "atom \<times> (nat \<times> nat option) option"

definition MAXREPEAT :: nat where
  "MAXREPEAT = 4294967295"

definition is_digit :: "char \<Rightarrow> bool" where
  "is_digit c = (c \<in> set ''0123456789'')"

definition is_ascii_alnum :: "char \<Rightarrow> bool" where
  "is_ascii_alnum c =
     (c \<in> set ''0123456789abcdefghijklmnopqrstuvwxyzABCDEFGHIJKLMNOPQRSTUVWXYZ'')"

definition digits_val :: "string \<Rightarrow> nat" where
  "digits_val ds = foldl (\<lambda>n c. 10 * n + (of_char c - 48)) 0 ds"

text \<open>The repeat is attached to the last item parsed (the head of the reversed
  list), after an optional \<^verbatim>\<open>?\<close> (lazy: same matches) or \<^verbatim>\<open>+\<close> (possessive).\<close>

definition attach_repeat ::
  "nat \<times> nat option \<Rightarrow> item list \<Rightarrow> string \<Rightarrow> py_error + (item list \<times> string)" where
  "attach_repeat bounds acc rest =
     (case acc of
        [] \<Rightarrow> Inl ReError
      | (a, q) # acc' \<Rightarrow>
          if a = Bol \<or> a = Eol then Inl ReError
          else if q \<noteq> None then Inl ReError
          else (case rest of
                  [] \<Rightarrow> Inr ((a, Some bounds) # acc', [])
                | c # cs \<Rightarrow>
                    if c = CHR ''?'' then Inr ((a, Some bounds) # acc', cs)
                    else if c = CHR ''+'' then Inl NotInFragment
                    else Inr ((a, Some bounds) # acc', rest)))"

text \<open>What follows a \<^verbatim>\<open>{\<close>: \<open>None\<close> when it is a literal brace, else the bounds (or
  the exception) and the text after the closing brace.\<close>

definition parse_count :: "string \<Rightarrow> ((py_error + (nat \<times> nat option)) \<times> string) option" where
  "parse_count rest =
     (let lo = takeWhile is_digit rest;
          r1 = dropWhile is_digit rest;
          comma = (r1 \<noteq> [] \<and> hd r1 = CHR '','');
          hi = (if comma then takeWhile is_digit (tl r1) else lo);
          r2 = (if comma then dropWhile is_digit (tl r1) else r1)
      in if r2 = [] \<or> hd r2 \<noteq> CHR ''}'' then None
         else Some
           (if lo \<noteq> [] \<and> MAXREPEAT \<le> digits_val lo then Inl OverflowError
            else if hi \<noteq> [] \<and> MAXREPEAT \<le> digits_val hi then Inl OverflowError
            else if hi \<noteq> [] \<and> digits_val hi < (if lo = [] then 0 else digits_val lo)
              then Inl ReError
            else Inr (if lo = [] then 0 else digits_val lo,
                      if hi = [] then None else Some (digits_val hi)),
            tl r2))"

text \<open>One parsing step: the items so far (reversed) and the remaining text.\<close>

definition parse_step :: "item list \<Rightarrow> char \<Rightarrow> string \<Rightarrow> py_error + (item list \<times> string)" where
  "parse_step acc c cs =
     (if c = bslash then
        (case cs of
           [] \<Rightarrow> Inl ReError
         | d # ds \<Rightarrow> if is_ascii_alnum d then Inl NotInFragment
                    else Inr ((Lit d, None) # acc, ds))
      else if c = CHR ''['' then
        (let neg = (cs \<noteq> [] \<and> hd cs = CHR ''^'');
             body = (if neg then tl cs else cs);
             ms = takeWhile (\<lambda>x. x \<noteq> CHR '']'') body;
             after = dropWhile (\<lambda>x. x \<noteq> CHR '']'') body
         in if after = [] then Inl ReError
            else if ms = [] \<or> bslash \<in> set ms \<or> CHR ''-'' \<in> set ms \<or> CHR ''['' \<in> set ms
              then Inl NotInFragment
            else Inr ((Cls neg ms, None) # acc, tl after))
      else if c = CHR ''*'' then attach_repeat (0, None) acc cs
      else if c = CHR ''+'' then attach_repeat (1, None) acc cs
      else if c = CHR ''?'' then attach_repeat (0, Some 1) acc cs
      else if c = CHR ''{'' then
        (if cs \<noteq> [] \<and> hd cs = CHR ''}'' then Inr ((Lit c, None) # acc, cs)
         else (case parse_count cs of
                 None \<Rightarrow> Inr ((Lit c, None) # acc, cs)
               | Some (Inl e, rest) \<Rightarrow> Inl e
               | Some (Inr bounds, rest) \<Rightarrow> attach_repeat bounds acc rest))
      else if c = CHR ''('' \<or> c = CHR '')'' \<or> c = CHR ''|'' then Inl NotInFragment
      else if c = CHR ''.'' then Inr ((AnyChar, None) # acc, cs)
      else if c = CHR ''^'' then Inr ((Bol, None) # acc, cs)
      else if c = CHR ''$'' then Inr ((Eol, None) # acc, cs)
      else Inr ((Lit c, None) # acc, cs))"

lemma length_dropWhile_le_aux: "length (dropWhile P xs) \<le> length xs"
  by (induction xs) auto

lemma attach_repeat_length:
  "attach_repeat b acc rest = Inr (acc', rest') \<Longrightarrow> length rest' \<le> length rest"
  by (auto simp: attach_repeat_def split: list.splits if_splits)

lemma parse_count_length:
  "parse_count rest = Some (r, rest') \<Longrightarrow> length rest' \<le> length rest"
proof -
  assume a: "parse_count rest = Some (r, rest')"
  have d1: "length (dropWhile is_digit rest) \<le> length rest"
    by (rule length_dropWhile_le_aux)
  have d2: "length (dropWhile is_digit (tl (dropWhile is_digit rest))) \<le> length rest"
    using length_dropWhile_le_aux [of is_digit "tl (dropWhile is_digit rest)"] d1
    by simp
  from a d1 d2 show ?thesis
    by (auto simp: parse_count_def Let_def split: if_splits)
qed

lemma parse_step_length:
  "parse_step acc c cs = Inr (acc', rest) \<Longrightarrow> length rest \<le> length cs"
proof -
  assume a: "parse_step acc c cs = Inr (acc', rest)"
  have d: "length (dropWhile (\<lambda>x. x \<noteq> CHR '']'') (tl cs)) \<le> length cs"
    using length_dropWhile_le_aux [of "\<lambda>x. x \<noteq> CHR '']''" "tl cs"] by simp
  have d': "length (dropWhile (\<lambda>x. x \<noteq> CHR '']'') cs) \<le> length cs"
    by (rule length_dropWhile_le_aux)
  from a d d' show ?thesis
    by (auto simp: parse_step_def Let_def
             split: if_splits list.splits option.splits sum.splits prod.splits
             dest!: attach_repeat_length parse_count_length)
qed

function parse_re :: "item list \<Rightarrow> string \<Rightarrow> py_error + item list" where
  "parse_re acc [] = Inr (rev acc)"
| "parse_re acc (c # cs) =
     (case parse_step acc c cs of
        Inl e \<Rightarrow> Inl e
      | Inr (acc', rest) \<Rightarrow> parse_re acc' rest)"
  by pat_completeness auto
termination
  by (relation "measure (\<lambda>(acc, s). length s)")
     (auto dest: parse_step_length)

fun atom_ok :: "atom \<Rightarrow> char \<Rightarrow> bool" where
  "atom_ok (Lit d) c = (c = d)"
| "atom_ok AnyChar c = (c \<noteq> newline)"
| "atom_ok (Cls neg ms) c = ((c \<in> set ms) \<noteq> neg)"
| "atom_ok Bol c = False"
| "atom_ok Eol c = False"

text \<open>Does a match of the items start here? \<open>b\<close>: we are at the start of the
  subject. \<^verbatim>\<open>$\<close> holds at the end and before a final newline. The repeat bounds
  count down as characters are consumed.\<close>

definition dec_max :: "nat option \<Rightarrow> nat option" where
  "dec_max hi = map_option (\<lambda>n. n - 1) hi"

function match_here :: "item list \<Rightarrow> bool \<Rightarrow> string \<Rightarrow> bool" where
  "match_here [] b s = True"
| "match_here ((a, None) # r) b s =
     (if a = Bol then b \<and> match_here r b s
      else if a = Eol then (s = [] \<or> s = [newline]) \<and> match_here r b s
      else (case s of
              [] \<Rightarrow> False
            | c # cs \<Rightarrow> atom_ok a c \<and> match_here r False cs))"
| "match_here ((a, Some (lo, hi)) # r) b s =
     (if 0 < lo then
        (case s of
           [] \<Rightarrow> False
         | c # cs \<Rightarrow> atom_ok a c \<and> match_here ((a, Some (lo - 1, dec_max hi)) # r) False cs)
      else
        (match_here r b s \<or>
         (hi \<noteq> Some 0 \<and>
          (case s of
             [] \<Rightarrow> False
           | c # cs \<Rightarrow> atom_ok a c \<and> match_here ((a, Some (0, dec_max hi)) # r) False cs))))"
  by pat_completeness auto
termination
  by (relation "measures [\<lambda>(r, b, s). length s, \<lambda>(r, b, s). length r]") auto

fun search_from :: "item list \<Rightarrow> bool \<Rightarrow> string \<Rightarrow> bool" where
  "search_from its b [] = match_here its b []"
| "search_from its b (c # cs) = (match_here its b (c # cs) \<or> search_from its False cs)"

definition re_search :: re_engine where
  "re_search p s =
     (case parse_re [] p of
        Inl e \<Rightarrow> Inl e
      | Inr its \<Rightarrow> Inr (search_from its True s))"

subsection \<open>File patterns\<close>

record FilePattern =
  pattern :: string
  type :: string

text \<open>\<^verbatim>\<open>FilePattern.matches\<close>. The \<^verbatim>\<open>except re.error\<close> clause catches \<open>ReError\<close> and
  nothing else: any other exception of the engine leaves the method.\<close>

definition glob_to_regex :: "string \<Rightarrow> string" where
  "glob_to_regex p = str_replace ''*'' ''[^/]*'' (str_replace ''**/'' ''.*'' p)"

definition catch_re_error :: "py_error + bool \<Rightarrow> py_error + bool" where
  "catch_re_error r = (case r of Inl e \<Rightarrow> (if e = ReError then Inr False else Inl e) | Inr b \<Rightarrow> Inr b)"

definition matches :: "re_engine \<Rightarrow> FilePattern \<Rightarrow> string \<Rightarrow> py_error + bool" where
  "matches rs fp file_path =
     (if type fp = ''exact'' then Inr (pattern fp = file_path)
      else if type fp = ''regex'' then catch_re_error (rs (pattern fp) file_path)
      else if type fp = ''glob'' then catch_re_error (rs (glob_to_regex (pattern fp)) file_path)
      else Inr False)"

subsection \<open>Pattern overlap\<close>

text \<open>\<^verbatim>\<open>_is_exact_regex\<close>.\<close>

definition wildcards :: "string list" where
  "wildcards = [''.*'', ''.+'', ''['', '']'', ''('', ''|'', ''{'', ''}'', ''?'', ''+'', ''*'']"

definition is_exact_regex :: "string \<Rightarrow> bool" where
  "is_exact_regex p =
     (let cleaned = rstrip (CHR ''$'') (lstrip (CHR ''^'') p)
      in list_all (\<lambda>w. \<not> str_in w cleaned) wildcards)"

text \<open>\<^verbatim>\<open>pattern.lstrip('^').rstrip('$').replace('\\.', '.')\<close>.\<close>

definition normalized :: "string \<Rightarrow> string" where
  "normalized p = str_replace [bslash, CHR ''.''] ''.'' (rstrip (CHR ''$'') (lstrip (CHR ''^'') p))"

text \<open>
  \<^verbatim>\<open>_extract_base_path\<close>: \<^verbatim>\<open>re.sub(r'[\.\*\[\]\(\)\?\+\{\}\\].*$', '', pattern)\<close>, then
  \<^verbatim>\<open>rstrip('/')\<close>. The substitution uses a fixed pattern, so it is modelled directly:
  the match starts at the first metacharacter after which no newline follows
  except as the very last character (\<^verbatim>\<open>.\<close> stops at a newline and \<^verbatim>\<open>$\<close> holds at the
  end and before a final newline), and it removes the text up to the end or
  up to that final newline.
\<close>

definition base_meta :: "char list" where
  "base_meta = CHR ''.'' # CHR ''*'' # CHR ''['' # CHR '']'' # CHR ''('' # CHR '')'' #
               CHR ''?'' # CHR ''+'' # CHR ''{'' # CHR ''}'' # [bslash]"

fun cut_at_meta :: "string \<Rightarrow> string" where
  "cut_at_meta [] = []"
| "cut_at_meta (c # cs) =
     (if c \<in> set base_meta then
        (let r = dropWhile (\<lambda>x. x \<noteq> newline) cs
         in if r = [] then []
            else if r = [newline] then [newline]
            else c # cut_at_meta cs)
      else c # cut_at_meta cs)"

definition extract_base_path :: "string \<Rightarrow> string" where
  "extract_base_path p = rstrip (CHR ''/'') (cut_at_meta p)"

text \<open>The common leading segments, as the loop with \<^verbatim>\<open>break\<close> collects them.\<close>

fun common_prefix :: "string list \<Rightarrow> string list \<Rightarrow> string list" where
  "common_prefix (x # xs) (y # ys) = (if x = y then x # common_prefix xs ys else [])"
| "common_prefix xs ys = []"

text \<open>The candidate paths of \<^verbatim>\<open>_generate_and_test_paths\<close>.\<close>

definition base_suffixes :: "string list" where
  "base_suffixes = [''.ts'', ''/file.ts'', ''/sub/file.ts'', ''/handlers/file.ts'',
                    ''/ado-service.ts'', ''/tool-service.ts'', ''/response-builder.ts'']"

definition services_paths :: "string list" where
  "services_paths = [''mcp_server/src/services/ado-work-item-service.ts'',
                     ''mcp_server/src/services/ado-query-service.ts'',
                     ''mcp_server/src/services/tool-service.ts'',
                     ''mcp_server/src/services/handlers/handler.ts'',
                     ''mcp_server/src/services/handlers/wit-handler.ts'']"

definition utils_paths :: "string list" where
  "utils_paths = [''mcp_server/src/utils/response-builder.ts'',
                  ''mcp_server/src/utils/logger.ts'',
                  ''mcp_server/src/utils/auth.ts'']"

definition test_paths :: "string \<Rightarrow> string \<Rightarrow> string list" where
  "test_paths base1 base2 =
     (if base1 \<noteq> [] then map (\<lambda>sfx. base1 @ sfx) base_suffixes else []) @
     (if base2 \<noteq> [] \<and> base2 \<noteq> base1 then map (\<lambda>sfx. base2 @ sfx) base_suffixes else []) @
     (if str_in ''services'' base1 \<or> str_in ''services'' base2 then services_paths else []) @
     (if str_in ''utils'' base1 \<or> str_in ''utils'' base2 then utils_paths else [])"

text \<open>The counting loop: \<open>(overlap_count, match1_count, match2_count)\<close>. An
  exception of a \<^verbatim>\<open>matches\<close> call ends it.\<close>

fun count_matches ::
  "re_engine \<Rightarrow> FilePattern \<Rightarrow> FilePattern \<Rightarrow> string list \<Rightarrow> nat \<times> nat \<times> nat
     \<Rightarrow> py_error + (nat \<times> nat \<times> nat)" where
  "count_matches rs p1 p2 [] acc = Inr acc"
| "count_matches rs p1 p2 (path # paths) (oc, m1, m2) =
     (case matches rs p1 path of
        Inl e \<Rightarrow> Inl e
      | Inr matches1 \<Rightarrow>
          (case matches rs p2 path of
             Inl e \<Rightarrow> Inl e
           | Inr matches2 \<Rightarrow>
               count_matches rs p1 p2 paths
                 (if matches1 \<and> matches2 then oc + 1 else oc,
                  if matches1 then m1 + 1 else m1,
                  if matches2 then m2 + 1 else m2)))"

definition generate_and_test_paths ::
  "re_engine \<Rightarrow> FilePattern \<Rightarrow> FilePattern \<Rightarrow> string \<Rightarrow> string \<Rightarrow> py_error + bool" where
  "generate_and_test_paths rs p1 p2 base1 base2 =
     (let cp = common_prefix (path_parts base1) (path_parts base2)
      in case count_matches rs p1 p2 (test_paths base1 base2) (0, 0, 0) of
           Inl e \<Rightarrow> Inl e
         | Inr (overlap_count, match1_count, match2_count) \<Rightarrow>
             if 0 < overlap_count then Inr True
             else if 0 < match1_count \<and> 0 < match2_count \<and> 3 \<le> length cp then Inr True
             else Inr False)"

text \<open>\<^verbatim>\<open>_check_regex_pattern_overlap\<close>.\<close>

definition check_regex_pattern_overlap ::
  "re_engine \<Rightarrow> FilePattern \<Rightarrow> FilePattern \<Rightarrow> py_error + bool" where
  "check_regex_pattern_overlap rs p1 p2 =
     (if is_exact_regex (pattern p1) \<and> is_exact_regex (pattern p2)
      then Inr (normalized (pattern p1) = normalized (pattern p2))
      else
        (let base1 = extract_base_path (pattern p1);
             base2 = extract_base_path (pattern p2);
             parts1 = path_parts base1;
             parts2 = path_parts base2
         in if parts1 = [] \<or> parts2 = [] then Inr True
            else
              (let min_len = min (length parts1) (length parts2)
               in if take min_len parts1 = take min_len parts2
                  then generate_and_test_paths rs p1 p2 base1 base2
                  else Inr False)))"

text \<open>\<^verbatim>\<open>_patterns_conflict\<close>, with its reclassification of the declared kind.\<close>

definition actual_type :: "FilePattern \<Rightarrow> string" where
  "actual_type fp =
     (if str_in [bslash, CHR ''.''] (pattern fp) \<or> str_in ''.*'' (pattern fp)
         \<or> str_in ''$'' (pattern fp) \<or> str_in ''^'' (pattern fp)
      then ''regex'' else type fp)"

definition is_pat :: "string \<Rightarrow> bool" where
  "is_pat t = (t = ''regex'' \<or> t = ''glob'')"

definition patterns_conflict :: "re_engine \<Rightarrow> FilePattern \<Rightarrow> FilePattern \<Rightarrow> py_error + bool" where
  "patterns_conflict rs p1 p2 =
     (let actual_type1 = actual_type p1; actual_type2 = actual_type p2
      in if actual_type1 = ''exact'' \<and> actual_type2 = ''exact''
           then Inr (pattern p1 = pattern p2)
         else if is_pat actual_type1 \<and> is_pat actual_type2 then
           (if is_exact_regex (pattern p1) \<and> is_exact_regex (pattern p2)
            then Inr (normalized (pattern p1) = normalized (pattern p2))
            else check_regex_pattern_overlap rs p1 p2)
         else if actual_type1 = ''exact'' \<and> is_pat actual_type2
           then matches rs p2 (pattern p1)
         else if actual_type2 = ''exact'' \<and> is_pat actual_type1
           then matches rs p1 (pattern p2)
         else Inr False)"

subsection \<open>Tasks and the conflict check\<close>

record Task =
  task_id :: string
  size :: string
  expected_runtime_min :: int
  depends_on :: "string list"
  conflicts_with :: "string list"
  file_patterns :: "FilePattern list"
  tags :: "string list"
  enabler :: bool

text \<open>The nested loops of \<^verbatim>\<open>_check_file_conflict\<close>: the first pair that conflicts
  (or raises) decides.\<close>

fun any_conflict :: "('a \<Rightarrow> py_error + bool) \<Rightarrow> 'a list \<Rightarrow> py_error + bool" where
  "any_conflict f [] = Inr False"
| "any_conflict f (x # xs) =
     (case f x of
        Inl e \<Rightarrow> Inl e
      | Inr b \<Rightarrow> if b then Inr True else any_conflict f xs)"

definition check_file_conflict :: "re_engine \<Rightarrow> Task \<Rightarrow> Task \<Rightarrow> py_error + bool" where
  "check_file_conflict rs task1 task2 =
     (if task_id task1 = task_id task2 then Inr False
      else if task_id task2 \<in> set (conflicts_with task1) \<or> task_id task1 \<in> set (conflicts_with task2)
        then Inr True
      else any_conflict (\<lambda>(pattern1, pattern2). patterns_conflict rs pattern1 pattern2)
             (List.product (file_patterns task1) (file_patterns task2)))"

subsection \<open>The input feeds\<close>

text \<open>
  \<^verbatim>\<open>load_data\<close> reads two JSON lists. Of a record of the dependency feed it reads
  \<^verbatim>\<open>task_id\<close> and, with defaults, \<^verbatim>\<open>size\<close>, \<^verbatim>\<open>expected_runtime_min\<close>, \<^verbatim>\<open>depends_on\<close>,
  \<^verbatim>\<open>tags\<close> and \<^verbatim>\<open>enabler\<close> (an absent key is \<open>None\<close>). Of a record of the conflict feed
  it reads \<^verbatim>\<open>task_id\<close> and \<^verbatim>\<open>files\<close>. The conflict feed also carries the explicit
  conflicts of a task under \<^verbatim>\<open>conflicts_with\<close> (\<^verbatim>\<open>analyze_bottlenecks.py\<close> and
  \<^verbatim>\<open>create_improved_graphs.py\<close> read and write that key); the field is part of the
  input although \<^verbatim>\<open>load_data\<close> never looks at it.
\<close>

datatype file_info =
    FileDict "string option" "string option"
  | FileStr string
  | FileOther

record conflict_entry =
  c_task_id :: string
  c_conflicts_with :: "string list"
  c_files :: "file_info list option"

record dependency_entry =
  d_task_id :: string
  d_size :: "string option"
  d_expected_runtime_min :: "int option"
  d_depends_on :: "string list option"
  d_tags :: "string list option"
  d_enabler :: "bool option"

subsection \<open>The planner state\<close>

text \<open>
  \<^verbatim>\<open>self.tasks\<close> is a dictionary in insertion order whose only assignment is
  \<^verbatim>\<open>self.tasks[task_id] = task\<close> with \<^verbatim>\<open>task.task_id == task_id\<close>: it is the list of its
  values, keyed by their own \<^verbatim>\<open>task_id\<close>. The two graphs are \<^verbatim>\<open>defaultdict(set)\<close>:
  association lists whose absent keys read as the empty set, a set being a
  list without repetition. The order of such a list stands for the iteration
  order of the Python set, which the language leaves open.
\<close>

record planner =
  tasks :: "Task list"
  dependency_graph :: "(string \<times> string list) list"
  reverse_dependency_graph :: "(string \<times> string list) list"

definition empty_planner :: planner where
  "empty_planner = \<lparr>tasks = [], dependency_graph = [], reverse_dependency_graph = []\<rparr>"

definition task_ids :: "planner \<Rightarrow> string list" where
  "task_ids reg = map task_id (tasks reg)"

text \<open>\<^verbatim>\<open>self.tasks[tid]\<close>; \<open>None\<close> stands for the \<^verbatim>\<open>KeyError\<close>.\<close>

definition get_task :: "planner \<Rightarrow> string \<Rightarrow> Task option" where
  "get_task reg tid = find (\<lambda>t. task_id t = tid) (tasks reg)"

text \<open>\<^verbatim>\<open>self.tasks[task.task_id] = task\<close>: an existing key keeps its place.\<close>

fun put_task :: "Task \<Rightarrow> Task list \<Rightarrow> Task list" where
  "put_task t [] = [t]"
| "put_task t (u # us) = (if task_id u = task_id t then t # us else u # put_task t us)"

definition graph_get :: "(string \<times> string list) list \<Rightarrow> string \<Rightarrow> string list" where
  "graph_get g k = (case map_of g k of None \<Rightarrow> [] | Some ds \<Rightarrow> ds)"

text \<open>\<^verbatim>\<open>g[k].add(d)\<close>.\<close>

definition graph_add :: "(string \<times> string list) list \<Rightarrow> string \<Rightarrow> string \<Rightarrow> (string \<times> string list) list" where
  "graph_add g k d = AList.update k (List.insert d (graph_get g k)) g"

subsection \<open>Loading\<close>

definition to_patterns :: "file_info \<Rightarrow> FilePattern list" where
  "to_patterns fi =
     (case fi of
        FileDict p t \<Rightarrow>
          [\<lparr>pattern = (case p of None \<Rightarrow> [] | Some x \<Rightarrow> x),
            type = (case t of None \<Rightarrow> ''exact'' | Some x \<Rightarrow> x)\<rparr>]
      | FileStr file \<Rightarrow>
          (if str_in ''**'' file \<or> suffix ''/**'' file
           then [\<lparr>pattern = file, type = ''glob''\<rparr>]
           else [\<lparr>pattern = file, type = ''exact''\<rparr>])
      | FileOther \<Rightarrow> [])"

definition build_file_pattern_map :: "conflict_entry list \<Rightarrow> (string \<times> FilePattern list) list" where
  "build_file_pattern_map file_patterns_data =
     foldl (\<lambda>m e. AList.update (c_task_id e)
                     (concat (map to_patterns (case c_files e of None \<Rightarrow> [] | Some fs \<Rightarrow> fs))) m)
           [] file_patterns_data"

definition make_task :: "(string \<times> FilePattern list) list \<Rightarrow> dependency_entry \<Rightarrow> Task" where
  "make_task file_pattern_map task_data =
     \<lparr>task_id = d_task_id task_data,
      size = (case d_size task_data of None \<Rightarrow> ''M'' | Some x \<Rightarrow> x),
      expected_runtime_min = (case d_expected_runtime_min task_data of None \<Rightarrow> 20 | Some x \<Rightarrow> x),
      depends_on = (case d_depends_on task_data of None \<Rightarrow> [] | Some x \<Rightarrow> x),
      conflicts_with = [],
      file_patterns = (case map_of file_pattern_map (d_task_id task_data) of
                         None \<Rightarrow> [] | Some x \<Rightarrow> x),
      tags = (case d_tags task_data of None \<Rightarrow> [] | Some x \<Rightarrow> x),
      enabler = (case d_enabler task_data of None \<Rightarrow> False | Some x \<Rightarrow> x)\<rparr>"

definition add_edge :: "string \<Rightarrow> planner \<Rightarrow> string \<Rightarrow> planner" where
  "add_edge tid reg dep =
     reg\<lparr>dependency_graph := graph_add (dependency_graph reg) tid dep,
         reverse_dependency_graph := graph_add (reverse_dependency_graph reg) dep tid\<rparr>"

definition add_task :: "planner \<Rightarrow> Task \<Rightarrow> planner" where
  "add_task reg task =
     foldl (add_edge (task_id task)) (reg\<lparr>tasks := put_task task (tasks reg)\<rparr>) (depends_on task)"

definition load_data :: "dependency_entry list \<Rightarrow> conflict_entry list \<Rightarrow> planner" where
  "load_data dependencies file_patterns_data =
     foldl (\<lambda>reg task_data. add_task reg (make_task (build_file_pattern_map file_patterns_data) task_data))
           empty_planner dependencies"

subsection \<open>The priority topological sort\<close>

text \<open>\<^verbatim>\<open>_get_task_priority\<close>: \<^verbatim>\<open>(-dependent_count, task_id)\<close>, compared as Python
  compares tuples and strings.\<close>

definition get_task_priority :: "planner \<Rightarrow> Task \<Rightarrow> int \<times> string" where
  "get_task_priority reg task =
     (- int (length (graph_get (reverse_dependency_graph reg) (task_id task))), task_id task)"

text \<open>\<^verbatim>\<open>available_tasks.sort(key=lambda tid: self._get_task_priority(self.tasks[tid]))\<close>:
  the keys are computed first, in list order, and a missing id raises.\<close>

definition sort_by_priority :: "planner \<Rightarrow> string list \<Rightarrow> py_error + string list" where
  "sort_by_priority reg available =
     (case find (\<lambda>tid. get_task reg tid = None) available of
        Some tid \<Rightarrow> Inl (KeyError tid)
      | None \<Rightarrow>
          Inr (sort_key (\<lambda>tid. get_task_priority reg (the (get_task reg tid))) available))"

text \<open>The inner loop over the dependents of the task just emitted.
  \<^verbatim>\<open>in_degree\<close> is a \<^verbatim>\<open>defaultdict(int)\<close>: a total function, 0 where nothing was stored.\<close>

fun update_in_degrees ::
  "string list \<Rightarrow> (string \<Rightarrow> int) \<times> string list \<Rightarrow> (string \<Rightarrow> int) \<times> string list" where
  "update_in_degrees [] st = st"
| "update_in_degrees (dependent # ds) (in_degree, available) =
     update_in_degrees ds
       (in_degree(dependent := in_degree dependent - 1),
        if in_degree dependent - 1 = 0 then available @ [dependent] else available)"

definition all_dependents :: "planner \<Rightarrow> string set" where
  "all_dependents reg = set (concat (map snd (reverse_dependency_graph reg)))"

definition topo_measure :: "planner \<Rightarrow> string list \<Rightarrow> (string \<Rightarrow> int) \<Rightarrow> nat" where
  "topo_measure reg available in_degree =
     length available + card {d \<in> all_dependents reg. 1 \<le> in_degree d}"

lemma graph_get_subset: "set (graph_get g k) \<subseteq> set (concat (map snd g))"
proof (cases "map_of g k")
  case None
  then show ?thesis by (simp add: graph_get_def)
next
  case (Some ds)
  then have "(k, ds) \<in> set g" by (rule map_of_SomeD)
  then have "set ds \<subseteq> set (concat (map snd g))" by force
  with Some show ?thesis by (simp add: graph_get_def)
qed

lemma finite_all_dependents: "finite (all_dependents reg)"
  by (simp add: all_dependents_def)

lemma update_in_degrees_measure:
  "set ds \<subseteq> all_dependents reg \<Longrightarrow> update_in_degrees ds (f, av) = (f', av') \<Longrightarrow>
   topo_measure reg av' f' \<le> topo_measure reg av f"
proof (induction ds arbitrary: f av)
  case Nil
  then show ?case by simp
next
  case (Cons d ds)
  let ?f = "f(d := f d - 1)"
  let ?av = "if f d - 1 = 0 then av @ [d] else av"
  have step: "topo_measure reg ?av ?f \<le> topo_measure reg av f"
  proof (cases "f d - 1 = 0")
    case True
    have d: "d \<in> all_dependents reg" using Cons.prems(1) by simp
    have eq: "{x \<in> all_dependents reg. 1 \<le> ?f x} = {x \<in> all_dependents reg. 1 \<le> f x} - {d}"
      using True by auto
    have "d \<in> {x \<in> all_dependents reg. 1 \<le> f x}" using d True by simp
    moreover have "finite {x \<in> all_dependents reg. 1 \<le> f x}"
      using finite_all_dependents by simp
    ultimately have "card {x \<in> all_dependents reg. 1 \<le> ?f x} + 1 =
                     card {x \<in> all_dependents reg. 1 \<le> f x}"
      unfolding eq by (metis Suc_eq_plus1 card_Suc_Diff1)
    with True show ?thesis by (simp add: topo_measure_def)
  next
    case False
    have "{x \<in> all_dependents reg. 1 \<le> ?f x} \<subseteq> {x \<in> all_dependents reg. 1 \<le> f x}"
      by auto
    then have "card {x \<in> all_dependents reg. 1 \<le> ?f x} \<le> card {x \<in> all_dependents reg. 1 \<le> f x}"
      using finite_all_dependents by (simp add: card_mono)
    with False show ?thesis by (simp add: topo_measure_def)
  qed
  have sub: "set ds \<subseteq> all_dependents reg" using Cons.prems(1) by simp
  have run: "update_in_degrees ds (?f, ?av) = (f', av')" using Cons.prems(2) by simp
  have "topo_measure reg av' f' \<le> topo_measure reg ?av ?f"
    by (rule Cons.IH [OF sub run])
  with step show ?case by linarith
qed

lemma sort_by_priority_length:
  "sort_by_priority reg available = Inr ordered \<Longrightarrow> length ordered = length available"
  by (auto simp: sort_by_priority_def split: option.splits)

function topo_loop ::
  "planner \<Rightarrow> string list \<Rightarrow> (string \<Rightarrow> int) \<Rightarrow> string list \<Rightarrow> py_error + string list" where
  "topo_loop reg available in_degree result =
     (if available = [] then Inr result
      else
        (case sort_by_priority reg available of
           Inl e \<Rightarrow> Inl e
         | Inr ordered \<Rightarrow>
             (case ordered of
                [] \<Rightarrow> Inr result
              | current_task # rest \<Rightarrow>
                  (case update_in_degrees
                          (graph_get (reverse_dependency_graph reg) current_task)
                          (in_degree, rest) of
                     (in_degree', available') \<Rightarrow>
                       topo_loop reg available' in_degree' (result @ [current_task])))))"
  by pat_completeness auto
termination
proof (relation "measure (\<lambda>(reg, available, in_degree, result). topo_measure reg available in_degree)")
  show "wf (measure (\<lambda>(reg, available, in_degree, result). topo_measure reg available in_degree))"
    by simp
next
  fix reg :: planner and available :: "string list" and in_degree :: "string \<Rightarrow> int"
    and result :: "string list" and ordered current_task rest in_degree' available'
  assume ne: "available \<noteq> []"
    and srt: "sort_by_priority reg available = Inr ordered"
    and ord: "ordered = current_task # rest"
    and pr: "(in_degree', available') =
               update_in_degrees (graph_get (reverse_dependency_graph reg) current_task)
                 (in_degree, rest)"
  have len: "length available = Suc (length rest)"
    using sort_by_priority_length [OF srt] ord by simp
  have sub: "set (graph_get (reverse_dependency_graph reg) current_task) \<subseteq> all_dependents reg"
    unfolding all_dependents_def by (rule graph_get_subset)
  have run: "update_in_degrees (graph_get (reverse_dependency_graph reg) current_task)
               (in_degree, rest) = (in_degree', available')"
    using pr by simp
  have "topo_measure reg available' in_degree' \<le> topo_measure reg rest in_degree"
    by (rule update_in_degrees_measure [OF sub run])
  also have "\<dots> < topo_measure reg available in_degree"
    using len by (simp add: topo_measure_def)
  finally show "((reg, available', in_degree', result @ [current_task]),
                 (reg, available, in_degree, result))
                \<in> measure (\<lambda>(reg, available, in_degree, result). topo_measure reg available in_degree)"
    by simp
qed

declare topo_loop.simps [simp del]

definition initial_in_degree :: "planner \<Rightarrow> string \<Rightarrow> int" where
  "initial_in_degree reg tid =
     (if tid \<in> set (task_ids reg)
      then int (length (graph_get (dependency_graph reg) tid)) else 0)"

text \<open>\<^verbatim>\<open>_topological_sort_with_priority\<close>.\<close>

definition topological_sort_with_priority :: "planner \<Rightarrow> py_error + string list" where
  "topological_sort_with_priority reg =
     (case topo_loop reg
             (filter (\<lambda>tid. initial_in_degree reg tid = 0) (task_ids reg))
             (initial_in_degree reg) [] of
        Inl e \<Rightarrow> Inl e
      | Inr result \<Rightarrow>
          if length result \<noteq> length (tasks reg) then Inl CircularDependency
          else Inr result)"

subsection \<open>Waves and the plan\<close>

text \<open>
  A wave entry is the dictionary built for an admitted task. The two float
  fields of the summary, \<^verbatim>\<open>average_parallelism\<close> and \<^verbatim>\<open>time_savings_percent\<close>, are
  left out: each is a function of \<open>total_tasks\<close>, \<open>total_waves\<close>,
  \<open>parallel_time_min\<close> and \<open>sequential_time_min\<close>, and each guards its division.
\<close>

record wave_task =
  wt_task_id :: string
  wt_size :: string
  wt_expected_runtime_min :: int
  wt_tags :: "string list"
  wt_enabler :: bool
  wt_files :: "string list"

record wave =
  wave_number :: nat
  w_tasks :: "wave_task list"
  parallel_task_count :: nat
  estimated_wave_time_min :: int
  size_distribution :: "(string \<times> nat) list"

record summary =
  total_waves :: nat
  total_tasks :: nat
  estimated_total_time_min :: int
  max_parallelism :: nat
  sequential_time_min :: int
  parallel_time_min :: int

record execution_plan =
  waves :: "wave list"
  plan_summary :: summary

definition to_wave_task :: "Task \<Rightarrow> wave_task" where
  "to_wave_task task =
     \<lparr>wt_task_id = task_id task, wt_size = size task,
      wt_expected_runtime_min = expected_runtime_min task,
      wt_tags = tags task, wt_enabler = enabler task,
      wt_files = map pattern (file_patterns task)\<rparr>"

text \<open>\<^verbatim>\<open>max(xs, default=d)\<close>.\<close>

fun max_default :: "'a::linorder list \<Rightarrow> 'a \<Rightarrow> 'a" where
  "max_default [] d = d"
| "max_default (x # xs) d = fold max xs x"

text \<open>\<^verbatim>\<open>_get_size_distribution\<close>.\<close>

definition get_size_distribution :: "wave_task list \<Rightarrow> (string \<times> nat) list" where
  "get_size_distribution ts =
     foldl (\<lambda>distribution t.
              AList.update (wt_size t)
                ((case map_of distribution (wt_size t) of None \<Rightarrow> 0 | Some n \<Rightarrow> n) + 1)
                distribution)
           [] ts"

definition make_wave :: "nat \<Rightarrow> wave_task list \<Rightarrow> wave" where
  "make_wave n ts =
     \<lparr>wave_number = n, w_tasks = ts, parallel_task_count = length ts,
      estimated_wave_time_min = max_default (map wt_expected_runtime_min ts) 0,
      size_distribution = get_size_distribution ts\<rparr>"

text \<open>The ready tasks: those of \<^verbatim>\<open>sorted_tasks\<close> not yet completed whose dependencies
  are all completed.\<close>

fun available_tasks :: "planner \<Rightarrow> string list \<Rightarrow> string list \<Rightarrow> py_error + Task list" where
  "available_tasks reg completed [] = Inr []"
| "available_tasks reg completed (tid # tids) =
     (if tid \<in> set completed then available_tasks reg completed tids
      else
        (case get_task reg tid of
           None \<Rightarrow> Inl (KeyError tid)
         | Some task \<Rightarrow>
             (case available_tasks reg completed tids of
                Inl e \<Rightarrow> Inl e
              | Inr ts \<Rightarrow>
                  Inr (if list_all (\<lambda>dep. dep \<in> set completed) (depends_on task)
                       then task # ts else ts))))"

text \<open>Does the task conflict with a task already selected for the wave? The
  loop stops at the first conflict.\<close>

fun conflicts_with_selected ::
  "re_engine \<Rightarrow> planner \<Rightarrow> Task \<Rightarrow> wave_task list \<Rightarrow> py_error + bool" where
  "conflicts_with_selected rs reg task [] = Inr False"
| "conflicts_with_selected rs reg task (selected_task_dict # rest) =
     (case get_task reg (wt_task_id selected_task_dict) of
        None \<Rightarrow> Inl (KeyError (wt_task_id selected_task_dict))
      | Some selected_task \<Rightarrow>
          (case check_file_conflict rs task selected_task of
             Inl e \<Rightarrow> Inl e
           | Inr c \<Rightarrow> if c then Inr True else conflicts_with_selected rs reg task rest))"

text \<open>The greedy packing loop over the sorted ready tasks; the state is
  \<open>(wave_tasks, used_task_ids, completed_tasks)\<close>.\<close>

fun pack_wave ::
  "re_engine \<Rightarrow> planner \<Rightarrow> Task list \<Rightarrow> wave_task list \<times> string list \<times> string list
     \<Rightarrow> py_error + (wave_task list \<times> string list \<times> string list)" where
  "pack_wave rs reg [] st = Inr st"
| "pack_wave rs reg (task # ts) (wave_tasks, used_task_ids, completed_tasks) =
     (if task_id task \<in> set used_task_ids
      then pack_wave rs reg ts (wave_tasks, used_task_ids, completed_tasks)
      else
        (case conflicts_with_selected rs reg task wave_tasks of
           Inl e \<Rightarrow> Inl e
         | Inr c \<Rightarrow>
             if c then pack_wave rs reg ts (wave_tasks, used_task_ids, completed_tasks)
             else pack_wave rs reg ts
                    (wave_tasks @ [to_wave_task task],
                     used_task_ids @ [task_id task],
                     completed_tasks @ [task_id task])))"

text \<open>One turn of the \<^verbatim>\<open>while\<close> loop of \<^verbatim>\<open>generate_execution_plan\<close>.\<close>

definition next_wave ::
  "re_engine \<Rightarrow> planner \<Rightarrow> string list \<Rightarrow> wave list \<Rightarrow> string list
     \<Rightarrow> py_error + (wave list \<times> string list)" where
  "next_wave rs reg sorted_tasks ws completed_tasks =
     (case available_tasks reg completed_tasks sorted_tasks of
        Inl e \<Rightarrow> Inl e
      | Inr available \<Rightarrow>
          if available = [] then Inl NoAvailableTasks
          else
            (case pack_wave rs reg
                    (sort_key (\<lambda>t. (length (conflicts_with t), task_id t)) available)
                    ([], [], completed_tasks) of
               Inl e \<Rightarrow> Inl e
             | Inr (wave_tasks, used_task_ids, completed_tasks') \<Rightarrow>
                 Inr (if wave_tasks \<noteq> []
                      then ws @ [make_wave (length ws + 1) wave_tasks] else ws,
                      completed_tasks')))"

lemma find_task_id: "find (\<lambda>t. task_id t = tid) ts = Some t \<Longrightarrow> task_id t = tid \<and> t \<in> set ts"
  by (induction ts) (auto split: if_splits)

lemma get_task_Some: "get_task reg tid = Some t \<Longrightarrow> task_id t = tid \<and> t \<in> set (tasks reg)"
  unfolding get_task_def by (rule find_task_id)

lemma available_tasks_sound:
  "available_tasks reg completed tids = Inr ts \<Longrightarrow> t \<in> set ts \<Longrightarrow>
   t \<in> set (tasks reg) \<and> task_id t \<in> set tids \<and> task_id t \<notin> set completed \<and>
   set (depends_on t) \<subseteq> set completed \<and> get_task reg (task_id t) = Some t"
proof (induction tids arbitrary: ts)
  case Nil
  then show ?case by simp
next
  case (Cons tid tids)
  show ?case
  proof (cases "tid \<in> set completed")
    case True
    with Cons show ?thesis by auto
  next
    case False
    from Cons.prems(1) False obtain task ts' where
      g: "get_task reg tid = Some task" and
      r: "available_tasks reg completed tids = Inr ts'" and
      e: "ts = (if list_all (\<lambda>dep. dep \<in> set completed) (depends_on task) then task # ts' else ts')"
      by (auto split: option.splits sum.splits)
    show ?thesis
    proof (cases "t \<in> set ts'")
      case True
      with Cons.IH [OF r] show ?thesis by auto
    next
      case nin: False
      with e Cons.prems(2) have t: "t = task"
        and d: "list_all (\<lambda>dep. dep \<in> set completed) (depends_on task)"
        by (auto split: if_splits)
      from get_task_Some [OF g] t d False g show ?thesis
        by (auto simp: list_all_iff)
    qed
  qed
qed

lemma pack_wave_completed_mono:
  "pack_wave rs reg ts (w, u, c) = Inr (w', u', c') \<Longrightarrow> set c \<subseteq> set c'"
proof (induction ts arbitrary: w u c)
  case Nil
  then show ?case by simp
next
  case (Cons t ts)
  from Cons.prems show ?case
    by (auto split: if_splits sum.splits dest!: Cons.IH)
qed

lemma pack_wave_admits_first:
  "pack_wave rs reg (t # ts) ([], [], c) = Inr (w', u', c') \<Longrightarrow> task_id t \<in> set c'"
  by (auto dest!: pack_wave_completed_mono)

lemma next_wave_progress:
  assumes "next_wave rs reg sorted_tasks ws completed = Inr (ws', completed')"
  shows "set completed \<subseteq> set completed' \<and>
         (\<exists>x \<in> set (task_ids reg). x \<notin> set completed \<and> x \<in> set completed')"
proof -
  from assms obtain available w u where
    av: "available_tasks reg completed sorted_tasks = Inr available" and
    ne: "available \<noteq> []" and
    pk: "pack_wave rs reg (sort_key (\<lambda>t. (length (conflicts_with t), task_id t)) available)
           ([], [], completed) = Inr (w, u, completed')"
    by (auto simp: next_wave_def split: sum.splits if_splits)
  let ?srt = "sort_key (\<lambda>t. (length (conflicts_with t), task_id t)) available"
  from ne have "?srt \<noteq> []"
    by (metis length_0_conv length_sort)
  then obtain t ts where st: "?srt = t # ts" by (cases ?srt) auto
  then have "t \<in> set available"
    by (metis list.set_intros(1) set_sort)
  from available_tasks_sound [OF av this]
  have t: "t \<in> set (tasks reg)" "task_id t \<notin> set completed" by auto
  from pk st have "pack_wave rs reg (t # ts) ([], [], completed) = Inr (w, u, completed')"
    by simp
  then have "task_id t \<in> set completed'"
    by (rule pack_wave_admits_first)
  moreover from pk have "set completed \<subseteq> set completed'"
    by (rule pack_wave_completed_mono)
  ultimately show ?thesis using t by (auto simp: task_ids_def)
qed

function plan_loop ::
  "re_engine \<Rightarrow> planner \<Rightarrow> string list \<Rightarrow> wave list \<Rightarrow> string list \<Rightarrow> py_error + wave list" where
  "plan_loop rs reg sorted_tasks ws completed_tasks =
     (if set completed_tasks = set (task_ids reg) then Inr ws
      else
        (case next_wave rs reg sorted_tasks ws completed_tasks of
           Inl e \<Rightarrow> Inl e
         | Inr (ws', completed_tasks') \<Rightarrow> plan_loop rs reg sorted_tasks ws' completed_tasks'))"
  by pat_completeness auto
termination
proof (relation "measure (\<lambda>(rs, reg, sorted_tasks, ws, completed_tasks).
                            card (set (task_ids reg) - set completed_tasks))")
  show "wf (measure (\<lambda>(rs, reg, sorted_tasks, ws, completed_tasks).
                       card (set (task_ids reg) - set completed_tasks)))"
    by simp
next
  fix rs :: re_engine and reg :: planner and sorted_tasks :: "string list"
    and ws :: "wave list" and completed_tasks :: "string list" and x ws' completed_tasks'
  assume "set completed_tasks \<noteq> set (task_ids reg)"
    and nw: "next_wave rs reg sorted_tasks ws completed_tasks = Inr x"
    and x: "(ws', completed_tasks') = x"
  from nw x have "next_wave rs reg sorted_tasks ws completed_tasks = Inr (ws', completed_tasks')"
    by simp
  from next_wave_progress [OF this] obtain y where
    sub: "set completed_tasks \<subseteq> set completed_tasks'" and
    y: "y \<in> set (task_ids reg)" "y \<notin> set completed_tasks" "y \<in> set completed_tasks'"
    by auto
  have "set (task_ids reg) - set completed_tasks' \<subset> set (task_ids reg) - set completed_tasks"
    using sub y by auto
  then have "card (set (task_ids reg) - set completed_tasks')
               < card (set (task_ids reg) - set completed_tasks)"
    by (simp add: psubset_card_mono)
  then show "((rs, reg, sorted_tasks, ws', completed_tasks'),
              (rs, reg, sorted_tasks, ws, completed_tasks))
             \<in> measure (\<lambda>(rs, reg, sorted_tasks, ws, completed_tasks).
                           card (set (task_ids reg) - set completed_tasks))"
    by simp
qed

declare plan_loop.simps [simp del]

text \<open>\<^verbatim>\<open>generate_execution_plan\<close>.\<close>

definition make_summary :: "planner \<Rightarrow> wave list \<Rightarrow> summary" where
  "make_summary reg ws =
     \<lparr>total_waves = length ws,
      total_tasks = length (tasks reg),
      estimated_total_time_min = sum_list (map estimated_wave_time_min ws),
      max_parallelism = max_default (map parallel_task_count ws) 0,
      sequential_time_min = sum_list (map expected_runtime_min (tasks reg)),
      parallel_time_min = sum_list (map estimated_wave_time_min ws)\<rparr>"

definition generate_execution_plan :: "re_engine \<Rightarrow> planner \<Rightarrow> py_error + execution_plan" where
  "generate_execution_plan rs reg =
     (case topological_sort_with_priority reg of
        Inl e \<Rightarrow> Inl e
      | Inr sorted_tasks \<Rightarrow>
          (case plan_loop rs reg sorted_tasks [] [] of
             Inl e \<Rightarrow> Inl e
           | Inr ws \<Rightarrow> Inr \<lparr>waves = ws, plan_summary = make_summary reg ws\<rparr>))"

text \<open>One planning run, as \<^verbatim>\<open>main\<close> performs it: load the two feeds, then plan.\<close>

definition plan_feeds ::
  "re_engine \<Rightarrow> dependency_entry list \<Rightarrow> conflict_entry list \<Rightarrow> py_error + execution_plan" where
  "plan_feeds rs dependencies file_patterns_data =
     generate_execution_plan rs (load_data dependencies file_patterns_data)"

section \<open>Properties and example inputs\<close>

subsection \<open>Example inputs\<close>

definition sib1 :: FilePattern where
  "sib1 = \<lparr>pattern = ''a/b/c/d/.*'', type = ''regex''\<rparr>"

definition sib2 :: FilePattern where
  "sib2 = \<lparr>pattern = ''a/b/c/e/.*'', type = ''regex''\<rparr>"

definition par1 :: FilePattern where
  "par1 = \<lparr>pattern = ''src/.*'', type = ''regex''\<rparr>"

definition par2 :: FilePattern where
  "par2 = \<lparr>pattern = ''src/a/.*'', type = ''regex''\<rparr>"

definition taskA0 :: Task where
  "taskA0 = \<lparr>task_id = ''A'', size = ''M'', expected_runtime_min = 20, depends_on = [],
             conflicts_with = [], file_patterns = [], tags = [], enabler = False\<rparr>"

definition taskB0 :: Task where
  "taskB0 = \<lparr>task_id = ''B'', size = ''M'', expected_runtime_min = 20, depends_on = [],
             conflicts_with = [],
             file_patterns = [\<lparr>pattern = ''.*'', type = ''regex''\<rparr>],
             tags = [], enabler = False\<rparr>"

definition depsAB :: "dependency_entry list" where
  "depsAB =
    [\<lparr>d_task_id = ''A'', d_size = None, d_expected_runtime_min = None,
      d_depends_on = Some [''B''], d_tags = None, d_enabler = None\<rparr>,
     \<lparr>d_task_id = ''B'', d_size = None, d_expected_runtime_min = None,
      d_depends_on = Some [''A''], d_tags = None, d_enabler = None\<rparr>]"

definition depsDangling :: "dependency_entry list" where
  "depsDangling =
    [\<lparr>d_task_id = ''A'', d_size = None, d_expected_runtime_min = None,
      d_depends_on = Some [''X''], d_tags = None, d_enabler = None\<rparr>]"

definition depsABC :: "dependency_entry list" where
  "depsABC =
    [\<lparr>d_task_id = ''A'', d_size = None, d_expected_runtime_min = Some 30,
      d_depends_on = Some [], d_tags = None, d_enabler = None\<rparr>,
     \<lparr>d_task_id = ''B'', d_size = None, d_expected_runtime_min = Some 10,
      d_depends_on = Some [], d_tags = None, d_enabler = None\<rparr>,
     \<lparr>d_task_id = ''C'', d_size = None, d_expected_runtime_min = None,
      d_depends_on = Some [''A''], d_tags = None, d_enabler = None\<rparr>]"

definition confsABC :: "conflict_entry list" where
  "confsABC =
    [\<lparr>c_task_id = ''A'', c_conflicts_with = [], c_files = Some []\<rparr>,
     \<lparr>c_task_id = ''B'', c_conflicts_with = [''A''], c_files = Some []\<rparr>,
     \<lparr>c_task_id = ''C'', c_conflicts_with = [], c_files = Some []\<rparr>]"

definition taskC :: Task where
  "taskC = \<lparr>task_id = ''C'', size = ''M'', expected_runtime_min = 20, depends_on = [''A''],
            conflicts_with = [], file_patterns = [], tags = [], enabler = False\<rparr>"

text \<open>What \<open>load_data\<close> returns for the two feeds above (lemma \<open>load_ABC\<close>), and
  the plan made from it (lemma \<open>plan_ABC\<close>).\<close>

definition regABC :: planner where
  "regABC =
     \<lparr>tasks = [\<lparr>task_id = ''A'', size = ''M'', expected_runtime_min = 30, depends_on = [],
                conflicts_with = [], file_patterns = [], tags = [], enabler = False\<rparr>,
               \<lparr>task_id = ''B'', size = ''M'', expected_runtime_min = 10, depends_on = [],
                conflicts_with = [], file_patterns = [], tags = [], enabler = False\<rparr>,
               taskC],
      dependency_graph = [(''C'', [''A''])],
      reverse_dependency_graph = [(''A'', [''C''])]\<rparr>"

definition planABC :: execution_plan where
  "planABC =
     \<lparr>waves =
        [\<lparr>wave_number = 1,
          w_tasks =
            [\<lparr>wt_task_id = ''A'', wt_size = ''M'', wt_expected_runtime_min = 30,
              wt_tags = [], wt_enabler = False, wt_files = []\<rparr>,
             \<lparr>wt_task_id = ''B'', wt_size = ''M'', wt_expected_runtime_min = 10,
              wt_tags = [], wt_enabler = False, wt_files = []\<rparr>],
          parallel_task_count = 2, estimated_wave_time_min = 30,
          size_distribution = [(''M'', 2)]\<rparr>,
         \<lparr>wave_number = 2,
          w_tasks =
            [\<lparr>wt_task_id = ''C'', wt_size = ''M'', wt_expected_runtime_min = 20,
              wt_tags = [], wt_enabler = False, wt_files = []\<rparr>],
          parallel_task_count = 1, estimated_wave_time_min = 20,
          size_distribution = [(''M'', 1)]\<rparr>],
      plan_summary =
        \<lparr>total_waves = 2, total_tasks = 3, estimated_total_time_min = 50,
         max_parallelism = 2, sequential_time_min = 60, parallel_time_min = 50\<rparr>\<rparr>"

text \<open>The conflict feed \<open>confsABC\<close> without its declared conflict.\<close>

definition confsNone :: "conflict_entry list" where
  "confsNone =
    [\<lparr>c_task_id = ''A'', c_conflicts_with = [], c_files = Some []\<rparr>,
     \<lparr>c_task_id = ''B'', c_conflicts_with = [], c_files = Some []\<rparr>,
     \<lparr>c_task_id = ''C'', c_conflicts_with = [], c_files = Some []\<rparr>]"

text \<open>A dependency feed with two independent tasks whose expected runtimes are
  negative (\<open>load_data\<close> takes the field as it comes), and the plan made from it.\<close>

definition depsNeg :: "dependency_entry list" where
  "depsNeg =
    [\<lparr>d_task_id = ''A'', d_size = None, d_expected_runtime_min = Some (- 5),
      d_depends_on = None, d_tags = None, d_enabler = None\<rparr>,
     \<lparr>d_task_id = ''B'', d_size = None, d_expected_runtime_min = Some (- 3),
      d_depends_on = None, d_tags = None, d_enabler = None\<rparr>]"

definition planNeg :: execution_plan where
  "planNeg =
     \<lparr>waves =
        [\<lparr>wave_number = 1,
          w_tasks =
            [\<lparr>wt_task_id = ''A'', wt_size = ''M'', wt_expected_runtime_min = - 5,
              wt_tags = [], wt_enabler = False, wt_files = []\<rparr>,
             \<lparr>wt_task_id = ''B'', wt_size = ''M'', wt_expected_runtime_min = - 3,
              wt_tags = [], wt_enabler = False, wt_files = []\<rparr>],
          parallel_task_count = 2, estimated_wave_time_min = - 3,
          size_distribution = [(''M'', 2)]\<rparr>],
      plan_summary =
        \<lparr>total_waves = 1, total_tasks = 2, estimated_total_time_min = - 3,
         max_parallelism = 2, sequential_time_min = - 8, parallel_time_min = - 3\<rparr>\<rparr>"

definition depsFan :: "dependency_entry list" where
  "depsFan =
    [\<lparr>d_task_id = ''A'', d_size = None, d_expected_runtime_min = None,
      d_depends_on = None, d_tags = None, d_enabler = None\<rparr>,
     \<lparr>d_task_id = ''B'', d_size = None, d_expected_runtime_min = None,
      d_depends_on = Some [''A''], d_tags = None, d_enabler = None\<rparr>,
     \<lparr>d_task_id = ''C'', d_size = None, d_expected_runtime_min = None,
      d_depends_on = Some [''A''], d_tags = None, d_enabler = None\<rparr>]"

definition taskFan :: "string \<Rightarrow> string list \<Rightarrow> Task" where
  "taskFan tid deps =
     \<lparr>task_id = tid, size = ''M'', expected_runtime_min = 20, depends_on = deps,
      conflicts_with = [], file_patterns = [], tags = [], enabler = False\<rparr>"

text \<open>What \<open>load_data\<close> returns for \<open>depsFan\<close> (lemma \<open>load_Fan\<close>), and the same
  state with the dependents of \<^verbatim>\<open>A\<close> enumerated in the other order.\<close>

definition regFan :: planner where
  "regFan =
     \<lparr>tasks = [taskFan ''A'' [], taskFan ''B'' [''A''], taskFan ''C'' [''A'']],
      dependency_graph = [(''B'', [''A'']), (''C'', [''A''])],
      reverse_dependency_graph = [(''A'', [''C'', ''B''])]\<rparr>"

definition regFan' :: planner where
  "regFan' =
     \<lparr>tasks = [taskFan ''A'' [], taskFan ''B'' [''A''], taskFan ''C'' [''A'']],
      dependency_graph = [(''B'', [''A'']), (''C'', [''A''])],
      reverse_dependency_graph = [(''A'', [''B'', ''C''])]\<rparr>"

subsection \<open>Invariants\<close>

definition wf_planner :: "planner \<Rightarrow> bool" where
  "wf_planner reg =
     (distinct (task_ids reg) \<and>
      (\<forall>k. distinct (graph_get (dependency_graph reg) k)) \<and>
      (\<forall>k. distinct (graph_get (reverse_dependency_graph reg) k)) \<and>
      (\<forall>t d. (t \<in> set (graph_get (reverse_dependency_graph reg) d))
             = (d \<in> set (graph_get (dependency_graph reg) t))) \<and>
      (\<forall>t. graph_get (dependency_graph reg) t \<noteq> [] \<longrightarrow> t \<in> set (task_ids reg)))"

definition dg :: "planner \<Rightarrow> string \<Rightarrow> string list" where
  "dg reg t = graph_get (dependency_graph reg) t"

definition topo_ordered :: "planner \<Rightarrow> string list \<Rightarrow> bool" where
  "topo_ordered reg res = (\<forall>i < length res. set (dg reg (res ! i)) \<subseteq> set (take i res))"

definition kahn_inv :: "planner \<Rightarrow> string list \<Rightarrow> (string \<Rightarrow> int) \<Rightarrow> string list \<Rightarrow> bool" where
  "kahn_inv reg av f res =
     (distinct (res @ av) \<and> set (res @ av) \<subseteq> set (task_ids reg) \<and>
      (\<forall>t \<in> set (task_ids reg). f t = int (card (set (dg reg t) - set res))) \<and>
      (\<forall>t \<in> set (task_ids reg). (t \<in> set (res @ av)) = (f t = 0)) \<and>
      topo_ordered reg res)"

definition kahn_result :: "planner \<Rightarrow> string list \<Rightarrow> bool" where
  "kahn_result reg res =
     (distinct res \<and> set res \<subseteq> set (task_ids reg) \<and> topo_ordered reg res \<and>
      (\<forall>t \<in> set (task_ids reg). set (dg reg t) \<subseteq> set res \<longrightarrow> t \<in> set res))"

definition entry_depends_on :: "dependency_entry \<Rightarrow> string list" where
  "entry_depends_on e = (case d_depends_on e of None \<Rightarrow> [] | Some ds \<Rightarrow> ds)"

definition feed_edges :: "dependency_entry list \<Rightarrow> (string \<times> string) set" where
  "feed_edges dependencies =
     set (concat (map (\<lambda>e. map (Pair (d_task_id e)) (entry_depends_on e)) dependencies))"

definition dep_rel :: "planner \<Rightarrow> (string \<times> string) set" where
  "dep_rel reg = {(t, d). d \<in> set (dg reg t)}"

text \<open>The ids of a wave, the ids of all waves, and the invariant of the wave
  loop: the completed ids are the ids placed so far, no id is placed twice,
  every wave is non-empty and built by \<open>make_wave\<close> with its 1-based number, and
  every entry stands for a loaded task whose dependencies are placed in
  earlier waves.\<close>

definition wave_ids :: "wave \<Rightarrow> string list" where
  "wave_ids w = map wt_task_id (w_tasks w)"

definition placed :: "wave list \<Rightarrow> string list" where
  "placed ws = concat (map wave_ids ws)"

definition plan_inv :: "planner \<Rightarrow> wave list \<Rightarrow> string list \<Rightarrow> bool" where
  "plan_inv reg ws completed =
     (set completed = set (placed ws) \<and> distinct (placed ws) \<and>
      (\<forall>i < length ws.
         w_tasks (ws ! i) \<noteq> [] \<and> ws ! i = make_wave (i + 1) (w_tasks (ws ! i)) \<and>
         (\<forall>wt \<in> set (w_tasks (ws ! i)).
            \<exists>t \<in> set (tasks reg). wt = to_wave_task t \<and> get_task reg (task_id t) = Some t \<and>
               set (depends_on t) \<subseteq> set (placed (take i ws)))))"

text \<open>Every entry of a wave was admitted after the conflict check against each
  entry before it returned false.\<close>

definition wave_conflict_free :: "re_engine \<Rightarrow> planner \<Rightarrow> wave_task list \<Rightarrow> bool" where
  "wave_conflict_free rs reg wts =
     (\<forall>j < length wts. \<forall>i < j.
        \<exists>tj ti. get_task reg (wt_task_id (wts ! j)) = Some tj \<and>
                get_task reg (wt_task_id (wts ! i)) = Some ti \<and>
                check_file_conflict rs tj ti = Inr False)"

text \<open>Two planner states that hold the same tasks and, key by key, the same
  sets in both graphs, enumerated in any order.\<close>

definition same_sets :: "planner \<Rightarrow> planner \<Rightarrow> bool" where
  "same_sets reg reg' =
     (tasks reg' = tasks reg \<and>
      (\<forall>k. mset (graph_get (dependency_graph reg') k) = mset (graph_get (dependency_graph reg) k)) \<and>
      (\<forall>k. mset (graph_get (reverse_dependency_graph reg') k)
            = mset (graph_get (reverse_dependency_graph reg) k)))"

section \<open>The pattern matcher\<close>

subsection \<open>Helper facts\<close>

lemma catch_re_error_simps:
  "catch_re_error (Inl ReError) = Inr False"
  "e \<noteq> ReError \<Longrightarrow> catch_re_error (Inl e) = Inl e"
  "catch_re_error (Inr b) = Inr b"
  by (simp_all add: catch_re_error_def)

lemma matches_re_error_is_no_match:
  "type fp = ''regex'' \<Longrightarrow> rs (pattern fp) file_path = Inl ReError
     \<Longrightarrow> matches rs fp file_path = Inr False"
  by (simp add: matches_def catch_re_error_def)

lemma matches_glob_re_error_is_no_match:
  "type fp = ''glob'' \<Longrightarrow> rs (glob_to_regex (pattern fp)) file_path = Inl ReError
     \<Longrightarrow> matches rs fp file_path = Inr False"
  by (simp add: matches_def catch_re_error_def)

lemma matches_other_exception_leaves:
  "type fp = ''regex'' \<Longrightarrow> rs (pattern fp) file_path = Inl e \<Longrightarrow> e \<noteq> ReError
     \<Longrightarrow> matches rs fp file_path = Inl e"
  by (simp add: matches_def catch_re_error_def)

lemma take_min_eq_prefix:
  "(take (min (length xs) (length ys)) xs = take (min (length xs) (length ys)) ys)
     = (prefix xs ys \<or> prefix ys xs)"
proof (cases "length xs \<le> length ys")
  case True
  then have "min (length xs) (length ys) = length xs" by simp
  moreover have "(xs = take (length xs) ys) = prefix xs ys"
    by (metis prefix_def append_eq_conv_conj take_is_prefix)
  moreover have "prefix ys xs \<Longrightarrow> prefix xs ys"
    using True by (metis prefix_length_prefix prefix_order.order_refl)
  ultimately show ?thesis by auto
next
  case False
  then have "min (length xs) (length ys) = length ys" by simp
  moreover have "(take (length ys) xs = ys) = prefix ys xs"
    by (metis prefix_def append_eq_conv_conj take_is_prefix)
  moreover have "prefix xs ys \<Longrightarrow> prefix ys xs"
    using False by (metis prefix_length_le)
  ultimately show ?thesis by auto
qed

lemma count_matches_total:
  assumes "\<forall>path \<in> set paths.
             matches rs p1 path = Inr (m1 path) \<and> matches rs p2 path = Inr (m2 path)"
  shows "count_matches rs p1 p2 paths (oc, c1, c2) =
           Inr (oc + length (filter (\<lambda>p. m1 p \<and> m2 p) paths),
                c1 + length (filter m1 paths),
                c2 + length (filter m2 paths))"
  using assms
  by (induction paths arbitrary: oc c1 c2) auto

lemma digits_val_overflow: "digits_val ''4294967296'' = 4294967296"
  by (simp add: digits_val_def)

lemma parse_count_overflow: "parse_count ''4294967296}'' = Some (Inl OverflowError, [])"
  by (simp add: parse_count_def is_digit_def digits_val_overflow MAXREPEAT_def Let_def)

subsection \<open>Glob translation\<close>

text \<open>
  C2. The claim: in a glob, \<^verbatim>\<open>**/\<close> stands for any number of path segments and a
  bare \<^verbatim>\<open>*\<close> for a run of non-separator characters, so that \<^verbatim>\<open>src/**/a.ts\<close> matches
  \<^verbatim>\<open>src/x/y/a.ts\<close>. The code replaces \<^verbatim>\<open>**/\<close> by \<^verbatim>\<open>.*\<close> and then every \<^verbatim>\<open>*\<close> by
  \<^verbatim>\<open>[^/]*\<close>, and the second replacement rewrites the \<^verbatim>\<open>*\<close> the first one has just
  produced: the regex is \<^verbatim>\<open>src/.[^/]*a.ts\<close>, one arbitrary character and then a run
  without separators, and it does not match \<^verbatim>\<open>src/x/y/a.ts\<close>.
\<close>

theorem glob_double_star_is_clobbered:
  "glob_to_regex ''src/**/a.ts'' = ''src/.[^/]*a.ts'' \<and>
   matches re_search \<lparr>pattern = ''src/**/a.ts'', type = ''glob''\<rparr> ''src/x/y/a.ts'' = Inr False"
  by code_simp

subsection \<open>Totality of matching\<close>

text \<open>
  C9. The claim: \<^verbatim>\<open>matches\<close> returns a boolean for every pattern and never raises.
  The method catches \<^verbatim>\<open>re.error\<close> only (lemmas \<open>matches_re_error_is_no_match\<close>
  and \<open>matches_other_exception_leaves\<close>). CPython's parser raises
  \<^verbatim>\<open>OverflowError\<close> for a repeat count of 4294967295 or more, so the regex
  \<^verbatim>\<open>a{4294967296}\<close> makes \<^verbatim>\<open>matches\<close> raise.
\<close>

theorem matches_raises_overflow:
  "matches re_search \<lparr>pattern = ''a{4294967296}'', type = ''regex''\<rparr> ''x'' = Inl OverflowError"
  by (simp add: matches_def catch_re_error_def re_search_def parse_step_def
                parse_count_overflow bslash_def)

subsection \<open>The prefix gate before the overlap probe\<close>

text \<open>
  C3, as stated: whenever the two prefixes share a leading segment, siblings
  under a common root included, the probe decides. It fails for the siblings
  \<^verbatim>\<open>a/b/c/d/.*\<close> and \<^verbatim>\<open>a/b/c/e/.*\<close>: they share three leading segments, the probe
  would report an overlap, and the code answers no overlap without running it.
\<close>

theorem sibling_prefixes_skip_probe:
  "is_pat (actual_type sib1) \<and> is_pat (actual_type sib2) \<and>
   \<not> (is_exact_regex (pattern sib1) \<and> is_exact_regex (pattern sib2)) \<and>
   path_parts (extract_base_path (pattern sib1)) = [''a'', ''b'', ''c'', ''d''] \<and>
   path_parts (extract_base_path (pattern sib2)) = [''a'', ''b'', ''c'', ''e''] \<and>
   patterns_conflict re_search sib1 sib2 = Inr False \<and>
   generate_and_test_paths re_search sib1 sib2
     (extract_base_path (pattern sib1)) (extract_base_path (pattern sib2)) = Inr True"
  by code_simp

text \<open>
  C3, amended: for two patterns that are both glob or regex after
  reclassification, not both exact paths spelled as regex, and whose literal
  prefixes both have a segment: when neither segment list is a prefix of the
  other (no common leading segment, or siblings under a common root) the answer
  is no overlap; when one is a prefix of the other (equal, or parent and child)
  the probe decides. When no \<^verbatim>\<open>matches\<close> call raises, the probe answers overlap iff
  some candidate path matches both patterns, or each pattern matches some
  candidate and the prefixes share at least 3 leading segments.
\<close>

theorem patterns_conflict_prefix_gate:
  assumes "is_pat (actual_type p1)" and "is_pat (actual_type p2)"
    and "\<not> (is_exact_regex (pattern p1) \<and> is_exact_regex (pattern p2))"
    and "path_parts (extract_base_path (pattern p1)) \<noteq> []"
    and "path_parts (extract_base_path (pattern p2)) \<noteq> []"
  shows "patterns_conflict rs p1 p2 =
           (if prefix (path_parts (extract_base_path (pattern p1)))
                      (path_parts (extract_base_path (pattern p2)))
             \<or> prefix (path_parts (extract_base_path (pattern p2)))
                      (path_parts (extract_base_path (pattern p1)))
            then generate_and_test_paths rs p1 p2
                   (extract_base_path (pattern p1)) (extract_base_path (pattern p2))
            else Inr False)
         \<and>
         ((\<forall>path \<in> set (test_paths (extract_base_path (pattern p1)) (extract_base_path (pattern p2))).
              matches rs p1 path = Inr (m1 path) \<and> matches rs p2 path = Inr (m2 path))
          \<longrightarrow> generate_and_test_paths rs p1 p2
                 (extract_base_path (pattern p1)) (extract_base_path (pattern p2)) =
               Inr ((\<exists>path \<in> set (test_paths (extract_base_path (pattern p1))
                                                (extract_base_path (pattern p2))).
                        m1 path \<and> m2 path)
                    \<or> ((\<exists>path \<in> set (test_paths (extract_base_path (pattern p1))
                                                    (extract_base_path (pattern p2))). m1 path)
                       \<and> (\<exists>path \<in> set (test_paths (extract_base_path (pattern p1))
                                                    (extract_base_path (pattern p2))). m2 path)
                       \<and> 3 \<le> length (common_prefix
                                        (path_parts (extract_base_path (pattern p1)))
                                        (path_parts (extract_base_path (pattern p2)))))))"
proof (intro conjI impI)
  have ne: "actual_type p1 \<noteq> ''exact''" "actual_type p2 \<noteq> ''exact''"
    using assms(1,2) by (auto simp: is_pat_def)
  show "patterns_conflict rs p1 p2 =
           (if prefix (path_parts (extract_base_path (pattern p1)))
                      (path_parts (extract_base_path (pattern p2)))
             \<or> prefix (path_parts (extract_base_path (pattern p2)))
                      (path_parts (extract_base_path (pattern p1)))
            then generate_and_test_paths rs p1 p2
                   (extract_base_path (pattern p1)) (extract_base_path (pattern p2))
            else Inr False)"
  proof -
    have nb: "(is_exact_regex (pattern p1) \<and> is_exact_regex (pattern p2)) = False"
      using assms(3) by simp
    show ?thesis
      unfolding patterns_conflict_def check_regex_pattern_overlap_def Let_def nb
      using assms(1,2,4,5) ne
      by (simp add: take_min_eq_prefix)
  qed
next
  let ?tp = "test_paths (extract_base_path (pattern p1)) (extract_base_path (pattern p2))"
  assume all: "\<forall>path \<in> set ?tp.
                 matches rs p1 path = Inr (m1 path) \<and> matches rs p2 path = Inr (m2 path)"
  have cnt: "count_matches rs p1 p2 ?tp (0, 0, 0) =
               Inr (length (filter (\<lambda>p. m1 p \<and> m2 p) ?tp),
                    length (filter m1 ?tp), length (filter m2 ?tp))"
    using count_matches_total [OF all, of 0 0 0] by simp
  have pos: "\<And>P. (0 < length (filter P ?tp)) = (\<exists>path \<in> set ?tp. P path)"
    by (simp add: filter_empty_conv)
  show "generate_and_test_paths rs p1 p2
          (extract_base_path (pattern p1)) (extract_base_path (pattern p2)) =
        Inr ((\<exists>path \<in> set ?tp. m1 path \<and> m2 path)
             \<or> ((\<exists>path \<in> set ?tp. m1 path) \<and> (\<exists>path \<in> set ?tp. m2 path)
                \<and> 3 \<le> length (common_prefix
                                 (path_parts (extract_base_path (pattern p1)))
                                 (path_parts (extract_base_path (pattern p2))))))"
    unfolding generate_and_test_paths_def Let_def cnt
    by (simp only: pos sum.case prod.case split: if_splits) auto
qed

theorem patterns_conflict_prefix_gate_witness:
  "is_pat (actual_type par1) \<and> is_pat (actual_type par2) \<and>
   \<not> (is_exact_regex (pattern par1) \<and> is_exact_regex (pattern par2)) \<and>
   path_parts (extract_base_path (pattern par1)) \<noteq> [] \<and>
   path_parts (extract_base_path (pattern par2)) \<noteq> [] \<and>
   patterns_conflict re_search par1 par2 =
     generate_and_test_paths re_search par1 par2 ''src'' ''src/a'' \<and>
   generate_and_test_paths re_search par1 par2 ''src'' ''src/a'' = Inr True"
proof -
  have h1: "is_pat (actual_type par1)" by code_simp
  have h2: "is_pat (actual_type par2)" by code_simp
  have h3: "\<not> (is_exact_regex (pattern par1) \<and> is_exact_regex (pattern par2))" by code_simp
  have b1: "extract_base_path (pattern par1) = ''src''" by code_simp
  have b2: "extract_base_path (pattern par2) = ''src/a''" by code_simp
  have q1: "path_parts ''src'' = [''src'']" by code_simp
  have q2: "path_parts ''src/a'' = [''src'', ''a'']" by code_simp
  have h4: "path_parts (extract_base_path (pattern par1)) \<noteq> []" by (simp add: b1 q1)
  have h5: "path_parts (extract_base_path (pattern par2)) \<noteq> []" by (simp add: b2 q2)
  have g: "generate_and_test_paths re_search par1 par2 ''src'' ''src/a'' = Inr True"
    by code_simp
  have "patterns_conflict re_search par1 par2 =
          generate_and_test_paths re_search par1 par2 ''src'' ''src/a''"
    using patterns_conflict_prefix_gate [OF h1 h2 h3 h4 h5, of re_search]
    by (simp add: b1 b2 q1 q2)
  with h1 h2 h3 h4 h5 g show ?thesis by simp
qed

section \<open>The conflict check\<close>

lemma product_Nil_right: "List.product xs [] = []"
  by (induction xs) simp_all

lemma pattern_free_check:
  "file_patterns task1 = [] \<or> file_patterns task2 = [] \<Longrightarrow>
   check_file_conflict rs task1 task2 =
     Inr (task_id task1 \<noteq> task_id task2 \<and>
          (task_id task2 \<in> set (conflicts_with task1) \<or>
           task_id task1 \<in> set (conflicts_with task2)))"
  by (auto simp: check_file_conflict_def product_Nil_right)

text \<open>
  C10. When at least one of two tasks has no resource pattern, the pattern loops
  of the conflict check are vacuous: the check raises nothing and its answer is
  the explicit-conflict test alone. A task without patterns is treated as
  touching no file, so the packer, which admits a task iff this check is false
  against every task already in the wave, places it beside any task, even one
  whose pattern matches everything (lemma \<open>task_without_patterns_is_admitted\<close>
  below).
\<close>

theorem no_patterns_no_pattern_conflict:
  "file_patterns task1 = [] \<or> file_patterns task2 = [] \<Longrightarrow>
   check_file_conflict rs task1 task2 =
     Inr (task_id task1 \<noteq> task_id task2 \<and>
          (task_id task2 \<in> set (conflicts_with task1) \<or>
           task_id task1 \<in> set (conflicts_with task2)))"
  by (auto simp: check_file_conflict_def product_Nil_right)

theorem no_patterns_no_pattern_conflict_witness:
  "(file_patterns taskA0 = [] \<or> file_patterns taskB0 = []) \<and>
   check_file_conflict re_search taskA0 taskB0 = Inr False"
proof -
  have h: "file_patterns taskA0 = [] \<or> file_patterns taskB0 = []"
    by (simp add: taskA0_def)
  from no_patterns_no_pattern_conflict [OF h, of re_search] h show ?thesis
    by (simp add: taskA0_def taskB0_def)
qed

lemma no_patterns_never_conflicts_with_selected:
  assumes "file_patterns task = []" and "conflicts_with task = []"
    and "\<forall>wt \<in> set selected. \<exists>s. get_task reg (wt_task_id wt) = Some s \<and> conflicts_with s = []"
  shows "conflicts_with_selected rs reg task selected = Inr False"
  using assms(3)
proof (induction selected)
  case Nil
  then show ?case by simp
next
  case (Cons wt selected)
  then obtain s where s: "get_task reg (wt_task_id wt) = Some s" "conflicts_with s = []"
    by auto
  have "check_file_conflict rs task s = Inr False"
    using pattern_free_check [of task s rs] assms(1,2) s(2) by simp
  with s(1) Cons show ?case by simp
qed

lemma task_without_patterns_is_admitted:
  assumes "file_patterns task = []" and "conflicts_with task = []"
    and "\<forall>wt \<in> set selected. \<exists>s. get_task reg (wt_task_id wt) = Some s \<and> conflicts_with s = []"
    and "task_id task \<notin> set used"
  shows "pack_wave rs reg (task # ts) (selected, used, completed) =
         pack_wave rs reg ts
           (selected @ [to_wave_task task], used @ [task_id task], completed @ [task_id task])"
  using assms(4) no_patterns_never_conflicts_with_selected [OF assms(1,2,3), of rs]
  by simp
section \<open>The loader\<close>


lemma graph_get_graph_add:
  "graph_get (graph_add g k d) k' =
     (if k' = k then List.insert d (graph_get g k) else graph_get g k')"
  by (simp add: graph_get_def graph_add_def update_conv')

lemma set_put_task: "set (map task_id (put_task t ts)) = insert (task_id t) (set (map task_id ts))"
  by (induction ts) auto

lemma distinct_put_task:
  "distinct (map task_id ts) \<Longrightarrow> distinct (map task_id (put_task t ts))"
proof (induction ts)
  case Nil
  then show ?case by simp
next
  case (Cons u us)
  then show ?case
    using set_put_task [of t us] by (auto simp del: set_map)
qed

lemma wf_planner_empty: "wf_planner empty_planner"
  by (simp add: wf_planner_def empty_planner_def task_ids_def graph_get_def)

lemma add_edge_fields:
  "tasks (add_edge tid reg dep) = tasks reg"
  "dependency_graph (add_edge tid reg dep) = graph_add (dependency_graph reg) tid dep"
  "reverse_dependency_graph (add_edge tid reg dep) = graph_add (reverse_dependency_graph reg) dep tid"
  by (simp_all add: add_edge_def)

lemma wf_planner_add_edge:
  assumes "wf_planner reg" and "tid \<in> set (task_ids reg)"
  shows "wf_planner (add_edge tid reg dep)"
  using assms
  unfolding wf_planner_def task_ids_def add_edge_fields graph_get_graph_add
  by (auto simp: distinct_insert)

lemma task_ids_add_edge: "task_ids (add_edge tid reg dep) = task_ids reg"
  by (simp add: task_ids_def add_edge_fields)

lemma wf_planner_add_edges:
  "wf_planner reg \<Longrightarrow> tid \<in> set (task_ids reg) \<Longrightarrow> wf_planner (foldl (add_edge tid) reg deps)"
  by (induction deps arbitrary: reg) (auto simp: wf_planner_add_edge task_ids_add_edge)

lemma wf_planner_put_task:
  assumes "wf_planner reg"
  shows "wf_planner (reg\<lparr>tasks := put_task task (tasks reg)\<rparr>)"
  using assms distinct_put_task [of "tasks reg" task] set_put_task [of task "tasks reg"]
  unfolding wf_planner_def task_ids_def
  by (auto simp del: set_map)

lemma wf_planner_add_task: "wf_planner reg \<Longrightarrow> wf_planner (add_task reg task)"
  unfolding add_task_def
  by (rule wf_planner_add_edges [OF wf_planner_put_task])
     (simp_all add: task_ids_def set_put_task del: set_map)

lemma wf_planner_foldl_add_task:
  "wf_planner reg \<Longrightarrow> wf_planner (foldl (\<lambda>r d. add_task r (mk d)) reg ds)"
  by (induction ds arbitrary: reg) (auto simp: wf_planner_add_task)

lemma wf_planner_load_data: "wf_planner (load_data dependencies file_patterns_data)"
  unfolding load_data_def
  by (rule wf_planner_foldl_add_task [OF wf_planner_empty])

section \<open>The topological sort\<close>


lemma update_in_degrees_distinct:
  "distinct ds \<Longrightarrow>
   update_in_degrees ds (f, av) =
     ((\<lambda>t. if t \<in> set ds then f t - 1 else f t), av @ filter (\<lambda>d. f d = 1) ds)"
proof (induction ds arbitrary: f av)
  case Nil
  then show ?case by simp
next
  case (Cons d ds)
  let ?f = "f(d := f d - 1)"
  have nd: "d \<notin> set ds" and dd: "distinct ds" using Cons.prems by auto
  have flt: "filter (\<lambda>x. ?f x = 1) ds = filter (\<lambda>x. f x = 1) ds"
    using nd by (intro filter_cong) auto
  have fn: "(\<lambda>t. if t \<in> set ds then ?f t - 1 else ?f t)
              = (\<lambda>t. if t \<in> set (d # ds) then f t - 1 else f t)"
    using nd by (auto simp: fun_eq_iff)
  show ?case
    by (simp add: Cons.IH [OF dd] flt fn del: fun_upd_apply set_simps)
qed

lemma topo_ordered_snoc:
  "topo_ordered reg (res @ [x]) = (topo_ordered reg res \<and> set (dg reg x) \<subseteq> set res)"
  unfolding topo_ordered_def
  by (auto simp: nth_append less_Suc_eq)

lemma kahn_inv_initial:
  assumes "wf_planner reg"
  shows "kahn_inv reg (filter (\<lambda>tid. initial_in_degree reg tid = 0) (task_ids reg))
           (initial_in_degree reg) []"
proof -
  have d: "\<And>t. distinct (dg reg t)" using assms by (simp add: wf_planner_def dg_def)
  have "\<And>t. t \<in> set (task_ids reg) \<Longrightarrow>
          initial_in_degree reg t = int (card (set (dg reg t)))"
    using d by (simp add: initial_in_degree_def dg_def distinct_card)
  moreover have "distinct (task_ids reg)" using assms by (simp add: wf_planner_def)
  ultimately show ?thesis
    by (auto simp: kahn_inv_def topo_ordered_def)
qed

lemma sort_by_priority_ok:
  assumes "set av \<subseteq> set (task_ids reg)"
  shows "sort_by_priority reg av =
           Inr (sort_key (\<lambda>tid. get_task_priority reg (the (get_task reg tid))) av)"
proof -
  have "\<And>tid. tid \<in> set (task_ids reg) \<Longrightarrow> get_task reg tid \<noteq> None"
    by (auto simp: get_task_def task_ids_def find_None_iff)
  with assms have "find (\<lambda>tid. get_task reg tid = None) av = None"
    by (auto simp: find_None_iff)
  then show ?thesis by (simp add: sort_by_priority_def)
qed

lemma kahn_inv_step:
  assumes wf: "wf_planner reg" and inv: "kahn_inv reg av f res"
    and srt: "sort_by_priority reg av = Inr (cur # rest)"
    and upd: "update_in_degrees (graph_get (reverse_dependency_graph reg) cur) (f, rest) = (f', av')"
  shows "kahn_inv reg av' f' (res @ [cur])"
proof -
  let ?ds = "graph_get (reverse_dependency_graph reg) cur"
  let ?ids = "set (task_ids reg)"
  have sub: "set av \<subseteq> ?ids" using inv by (simp add: kahn_inv_def)
  have perm: "mset (cur # rest) = mset av"
    using srt sort_by_priority_ok [OF sub] by (metis mset_sort sum.inject(2))
  then have seteq: "set av = insert cur (set rest)"
    by (metis list.simps(15) mset_eq_setD)
  have dist0: "distinct (res @ av)" using inv by (simp add: kahn_inv_def)
  have dist_cr: "distinct (cur # rest)"
    using perm dist0 by (metis distinct_append mset_eq_imp_distinct_iff)
  have cur_av: "cur \<in> set av" using seteq by simp
  have cur_res: "cur \<notin> set res" using dist0 cur_av by auto
  have dds: "distinct ?ds" using wf by (simp add: wf_planner_def)
  have ds_iff: "\<And>t. (t \<in> set ?ds) = (cur \<in> set (dg reg t))"
    using wf by (simp add: wf_planner_def dg_def)
  have ds_ids: "set ?ds \<subseteq> ?ids"
  proof
    fix t assume "t \<in> set ?ds"
    then have "cur \<in> set (dg reg t)" by (simp add: ds_iff)
    then have "graph_get (dependency_graph reg) t \<noteq> []" by (auto simp: dg_def)
    then show "t \<in> ?ids" using wf by (simp add: wf_planner_def)
  qed
  have f': "f' = (\<lambda>t. if t \<in> set ?ds then f t - 1 else f t)"
    and av': "av' = rest @ filter (\<lambda>d. f d = 1) ?ds"
    using upd update_in_degrees_distinct [OF dds, of f rest] by auto
  have fcard: "\<And>t. t \<in> ?ids \<Longrightarrow> f t = int (card (set (dg reg t) - set res))"
    using inv by (simp add: kahn_inv_def)
  have fzero: "\<And>t. t \<in> ?ids \<Longrightarrow> (t \<in> set (res @ av)) = (f t = 0)"
    using inv by (simp add: kahn_inv_def)
  have pos: "\<And>t. t \<in> set ?ds \<Longrightarrow> 1 \<le> f t"
  proof -
    fix t assume t: "t \<in> set ?ds"
    then have "cur \<in> set (dg reg t) - set res" using ds_iff cur_res by simp
    then have "0 < card (set (dg reg t) - set res)"
      by (metis card_gt_0_iff empty_iff finite_Diff finite_set)
    with fcard [of t] ds_ids t show "1 \<le> f t" by auto
  qed
  have fcard': "\<And>t. t \<in> ?ids \<Longrightarrow> f' t = int (card (set (dg reg t) - set (res @ [cur])))"
  proof -
    fix t assume t: "t \<in> ?ids"
    show "f' t = int (card (set (dg reg t) - set (res @ [cur])))"
    proof (cases "t \<in> set ?ds")
      case True
      then have c: "cur \<in> set (dg reg t) - set res" using ds_iff cur_res by simp
      have "set (dg reg t) - set (res @ [cur]) = (set (dg reg t) - set res) - {cur}" by auto
      then have "card (set (dg reg t) - set (res @ [cur])) = card (set (dg reg t) - set res) - 1"
        using c by (simp add: card_Diff_singleton)
      moreover have "0 < card (set (dg reg t) - set res)"
        using c by (metis card_gt_0_iff empty_iff finite_Diff finite_set)
      ultimately show ?thesis using True fcard [OF t] by (simp add: f')
    next
      case False
      then have "cur \<notin> set (dg reg t)" using ds_iff by simp
      then have "set (dg reg t) - set (res @ [cur]) = set (dg reg t) - set res" by auto
      then show ?thesis using False fcard [OF t] by (simp add: f')
    qed
  qed
  have old_not_ds: "\<And>t. t \<in> set (res @ av) \<Longrightarrow> t \<notin> set ?ds"
  proof
    fix t assume a: "t \<in> set (res @ av)" and b: "t \<in> set ?ds"
    from b ds_ids have "t \<in> ?ids" by auto
    with a fzero have "f t = 0" by simp
    with pos [OF b] show False by simp
  qed
  have new_set: "set (res @ [cur] @ av') = set (res @ av) \<union> {d \<in> set ?ds. f d = 1}"
    using seteq by (auto simp: av')
  have d1: "distinct (res @ [cur] @ rest)"
    using dist0 dist_cr seteq by auto
  have d2: "distinct (filter (\<lambda>d. f d = 1) ?ds)" using dds by simp
  have d3: "set (res @ [cur] @ rest) \<inter> set (filter (\<lambda>d. f d = 1) ?ds) = {}"
    using old_not_ds seteq by auto
  have dist': "distinct ((res @ [cur]) @ av')"
    using d1 d2 d3 by (auto simp: av')
  have sub': "set ((res @ [cur]) @ av') \<subseteq> ?ids"
    using inv ds_ids seteq by (auto simp: kahn_inv_def av')
  have zero': "\<And>t. t \<in> ?ids \<Longrightarrow> (t \<in> set ((res @ [cur]) @ av')) = (f' t = 0)"
  proof -
    fix t assume t: "t \<in> ?ids"
    show "(t \<in> set ((res @ [cur]) @ av')) = (f' t = 0)"
    proof (cases "t \<in> set ?ds")
      case True
      then have "t \<notin> set (res @ av)" using old_not_ds by blast
      then show ?thesis using True new_set by (auto simp: f')
    next
      case False
      then show ?thesis using new_set fzero [OF t] by (auto simp: f')
    qed
  qed
  have "f cur = 0" using fzero [of cur] cur_av sub by auto
  then have "card (set (dg reg cur) - set res) = 0" using fcard [of cur] cur_av sub by auto
  then have curdeps: "set (dg reg cur) \<subseteq> set res" by simp
  have "topo_ordered reg (res @ [cur])"
    using inv curdeps by (simp add: topo_ordered_snoc kahn_inv_def)
  with dist' sub' fcard' zero' show ?thesis
    unfolding kahn_inv_def by blast
qed

lemma topo_loop_kahn:
  "wf_planner reg \<Longrightarrow> kahn_inv reg av f res \<Longrightarrow>
   \<exists>final. topo_loop reg av f res = Inr final \<and> kahn_result reg final"
proof (induction reg av f res rule: topo_loop.induct)
  case (1 reg available in_degree result)
  note wf = "1.prems"(1) and inv = "1.prems"(2)
  show ?case
  proof (cases "available = []")
    case True
    have "\<And>t. t \<in> set (task_ids reg) \<Longrightarrow> set (dg reg t) \<subseteq> set result \<Longrightarrow> t \<in> set result"
    proof -
      fix t assume t: "t \<in> set (task_ids reg)" and s: "set (dg reg t) \<subseteq> set result"
      then have "set (dg reg t) - set result = {}" by auto
      then have "in_degree t = 0" using inv t by (simp add: kahn_inv_def)
      then show "t \<in> set result" using inv t True by (simp add: kahn_inv_def)
    qed
    with True inv show ?thesis
      by (simp add: kahn_inv_def kahn_result_def topo_loop.simps)
  next
    case False
    have sub: "set available \<subseteq> set (task_ids reg)" using inv by (simp add: kahn_inv_def)
    let ?ord = "sort_key (\<lambda>tid. get_task_priority reg (the (get_task reg tid))) available"
    have srt: "sort_by_priority reg available = Inr ?ord" by (rule sort_by_priority_ok [OF sub])
    have "?ord \<noteq> []" using False by (metis length_0_conv length_sort)
    then obtain cur rest where ord: "?ord = cur # rest" by (cases ?ord) auto
    obtain f' av' where upd:
      "update_in_degrees (graph_get (reverse_dependency_graph reg) cur) (in_degree, rest) = (f', av')"
      by (cases "update_in_degrees (graph_get (reverse_dependency_graph reg) cur) (in_degree, rest)")
    have inv': "kahn_inv reg av' f' (result @ [cur])"
      using kahn_inv_step [OF wf inv _ upd] srt ord by simp
    have "\<exists>final. topo_loop reg av' f' (result @ [cur]) = Inr final \<and> kahn_result reg final"
      by (rule "1.IH" [OF False srt ord upd [symmetric] wf inv'])
    moreover have "topo_loop reg available in_degree result = topo_loop reg av' f' (result @ [cur])"
      using False srt ord upd by (subst topo_loop.simps) simp
    ultimately show ?thesis by simp
  qed
qed

lemma dep_rel_add_edge: "dep_rel (add_edge tid reg dep) = insert (tid, dep) (dep_rel reg)"
  by (auto simp: dep_rel_def dg_def add_edge_fields graph_get_graph_add split: if_splits)

lemma dep_rel_add_edges:
  "dep_rel (foldl (add_edge tid) reg deps) = dep_rel reg \<union> {tid} \<times> set deps"
  by (induction deps arbitrary: reg) (auto simp: dep_rel_add_edge)

lemma tasks_add_edges: "tasks (foldl (add_edge tid) reg deps) = tasks reg"
  by (induction deps arbitrary: reg) (auto simp: add_edge_fields)

lemma dep_rel_add_task:
  "dep_rel (add_task reg task) = dep_rel reg \<union> {task_id task} \<times> set (depends_on task)"
  by (simp add: add_task_def dep_rel_add_edges) (simp add: dep_rel_def dg_def)

lemma task_ids_add_task:
  "set (task_ids (add_task reg task)) = insert (task_id task) (set (task_ids reg))"
  using set_put_task [of task "tasks reg"]
  by (simp add: add_task_def task_ids_def tasks_add_edges del: set_map)

lemma make_task_fields:
  "task_id (make_task m e) = d_task_id e"
  "depends_on (make_task m e) = entry_depends_on e"
  "conflicts_with (make_task m e) = []"
  by (simp_all add: make_task_def entry_depends_on_def)

lemma foldl_add_task_facts:
  "dep_rel (foldl (\<lambda>r e. add_task r (make_task m e)) reg ds) = dep_rel reg \<union> feed_edges ds \<and>
   set (task_ids (foldl (\<lambda>r e. add_task r (make_task m e)) reg ds))
     = set (task_ids reg) \<union> d_task_id ` set ds"
proof (induction ds arbitrary: reg)
  case Nil
  then show ?case by (simp add: feed_edges_def)
next
  case (Cons e ds)
  show ?case
    using Cons.IH [of "add_task reg (make_task m e)"]
    by (auto simp: dep_rel_add_task task_ids_add_task make_task_fields feed_edges_def)
qed

lemma dep_rel_load_data: "dep_rel (load_data dependencies fpd) = feed_edges dependencies"
  using foldl_add_task_facts [of "build_file_pattern_map fpd" empty_planner dependencies]
  by (simp add: load_data_def) (simp add: dep_rel_def dg_def empty_planner_def graph_get_def)

lemma task_ids_load_data:
  "set (task_ids (load_data dependencies fpd)) = d_task_id ` set dependencies"
  using foldl_add_task_facts [of "build_file_pattern_map fpd" empty_planner dependencies]
  by (simp add: load_data_def) (simp add: task_ids_def empty_planner_def)

lemma topo_ordered_no_cycle:
  "topo_ordered reg res \<Longrightarrow> x \<in> set res \<Longrightarrow> (x, x) \<notin> (dep_rel reg)\<^sup>+"
proof (induction res arbitrary: x rule: rev_induct)
  case Nil
  then show ?case by simp
next
  case (snoc z res)
  from snoc.prems(1) have ord: "topo_ordered reg res" and zd: "set (dg reg z) \<subseteq> set res"
    by (simp_all add: topo_ordered_snoc)
  show ?case
  proof (cases "x \<in> set res")
    case True
    then show ?thesis by (rule snoc.IH [OF ord])
  next
    case False
    with snoc.prems(2) have xz: "x = z" by simp
    show ?thesis
    proof
      assume "(x, x) \<in> (dep_rel reg)\<^sup>+"
      then obtain y where xy: "(x, y) \<in> dep_rel reg" and yx: "(y, x) \<in> (dep_rel reg)\<^sup>*"
        by (meson tranclD)
      from yx xy have yy: "(y, y) \<in> (dep_rel reg)\<^sup>+" by (rule rtrancl_into_trancl1)
      from xy xz zd have "y \<in> set res" by (auto simp: dep_rel_def)
      from snoc.IH [OF ord this] yy show False by simp
    qed
  qed
qed

lemma topo_ordered_deps_emitted:
  "topo_ordered reg res \<Longrightarrow> t \<in> set res \<Longrightarrow> set (dg reg t) \<subseteq> set res"
  unfolding topo_ordered_def
  by (metis in_set_conv_nth set_take_subset subset_trans)

lemma kahn_result_short:
  assumes "kahn_result reg res" and "t \<in> set (task_ids reg)" and "t \<notin> set res"
  shows "length res < length (tasks reg)"
proof -
  have "set res \<subset> set (task_ids reg)" using assms by (auto simp: kahn_result_def)
  then have "card (set res) < card (set (task_ids reg))" by (simp add: psubset_card_mono)
  moreover have "card (set res) = length res"
    using assms(1) by (simp add: kahn_result_def distinct_card)
  moreover have "card (set (task_ids reg)) \<le> length (tasks reg)"
    by (metis card_length length_map task_ids_def)
  ultimately show ?thesis by simp
qed

lemma topological_sort_emits:
  assumes "wf_planner reg"
  shows "\<exists>emitted. topo_loop reg (filter (\<lambda>tid. initial_in_degree reg tid = 0) (task_ids reg))
                     (initial_in_degree reg) [] = Inr emitted \<and> kahn_result reg emitted"
  by (rule topo_loop_kahn [OF assms kahn_inv_initial [OF assms]])

lemma missing_task_is_circular:
  assumes "wf_planner reg"
    and "\<And>emitted. kahn_result reg emitted \<Longrightarrow> \<exists>t \<in> set (task_ids reg). t \<notin> set emitted"
  shows "\<exists>emitted. topo_loop reg (filter (\<lambda>tid. initial_in_degree reg tid = 0) (task_ids reg))
                     (initial_in_degree reg) [] = Inr emitted \<and>
                   length emitted < length (tasks reg)"
    and "topological_sort_with_priority reg = Inl CircularDependency"
    and "generate_execution_plan rs reg = Inl CircularDependency"
proof -
  from topological_sort_emits [OF assms(1)] obtain emitted where
    e: "topo_loop reg (filter (\<lambda>tid. initial_in_degree reg tid = 0) (task_ids reg))
          (initial_in_degree reg) [] = Inr emitted" and k: "kahn_result reg emitted"
    by blast
  from assms(2) [OF k] obtain t where "t \<in> set (task_ids reg)" "t \<notin> set emitted" by blast
  with k have len: "length emitted < length (tasks reg)" by (rule kahn_result_short)
  with e show "\<exists>emitted. topo_loop reg (filter (\<lambda>tid. initial_in_degree reg tid = 0) (task_ids reg))
                     (initial_in_degree reg) [] = Inr emitted \<and>
                   length emitted < length (tasks reg)" by blast
  from e len show ts: "topological_sort_with_priority reg = Inl CircularDependency"
    by (simp add: topological_sort_with_priority_def)
  then show "generate_execution_plan rs reg = Inl CircularDependency"
    by (simp add: generate_execution_plan_def)
qed

subsection \<open>Cycles\<close>

text \<open>
  C5. When the dependency edges of the input have a cycle, planning raises
  \<^verbatim>\<open>ValueError("Circular dependency detected!")\<close> (the code's cycle error) and
  returns no plan: the sort loop ends with no candidate left, having emitted
  fewer ids than there are tasks, and the length check raises. Nothing else is
  raised first, and the wave loop is never entered.
\<close>

theorem cycle_raises_circular_dependency:
  assumes "(t, t) \<in> (feed_edges dependencies)\<^sup>+"
  shows "(\<exists>emitted.
            topo_loop (load_data dependencies file_patterns_data)
              (filter (\<lambda>tid. initial_in_degree (load_data dependencies file_patterns_data) tid = 0)
                      (task_ids (load_data dependencies file_patterns_data)))
              (initial_in_degree (load_data dependencies file_patterns_data)) [] = Inr emitted \<and>
            length emitted < length (tasks (load_data dependencies file_patterns_data))) \<and>
         topological_sort_with_priority (load_data dependencies file_patterns_data)
           = Inl CircularDependency \<and>
         plan_feeds rs dependencies file_patterns_data = Inl CircularDependency"
proof -
  let ?reg = "load_data dependencies file_patterns_data"
  have wf: "wf_planner ?reg" by (rule wf_planner_load_data)
  have cyc: "(t, t) \<in> (dep_rel ?reg)\<^sup>+" using assms by (simp add: dep_rel_load_data)
  then obtain y where "(t, y) \<in> dep_rel ?reg" by (meson tranclD)
  then have "(t, y) \<in> feed_edges dependencies" by (simp add: dep_rel_load_data)
  then have tin: "t \<in> set (task_ids ?reg)"
    by (auto simp: feed_edges_def task_ids_load_data)
  have miss: "\<And>emitted. kahn_result ?reg emitted \<Longrightarrow> \<exists>t \<in> set (task_ids ?reg). t \<notin> set emitted"
  proof -
    fix emitted assume "kahn_result ?reg emitted"
    then have "topo_ordered ?reg emitted" by (simp add: kahn_result_def)
    with cyc have "t \<notin> set emitted" using topo_ordered_no_cycle by blast
    with tin show "\<exists>t \<in> set (task_ids ?reg). t \<notin> set emitted" by blast
  qed
  show ?thesis
    using missing_task_is_circular(1,2) [OF wf miss] missing_task_is_circular(3) [OF wf miss, of rs]
    by (simp add: plan_feeds_def)
qed

theorem cycle_raises_circular_dependency_witness:
  "(''A'', ''A'') \<in> (feed_edges depsAB)\<^sup>+ \<and>
   topological_sort_with_priority (load_data depsAB []) = Inl CircularDependency \<and>
   plan_feeds re_search depsAB [] = Inl CircularDependency"
proof -
  have ab: "(''A'', ''B'') \<in> feed_edges depsAB"
    by (simp add: feed_edges_def depsAB_def entry_depends_on_def)
  have ba: "(''B'', ''A'') \<in> feed_edges depsAB"
    by (simp add: feed_edges_def depsAB_def entry_depends_on_def)
  from ab ba have h: "(''A'', ''A'') \<in> (feed_edges depsAB)\<^sup>+" by (rule trancl_into_trancl2 [OF _ r_into_trancl])
  from cycle_raises_circular_dependency [OF h, of "[]" re_search] h show ?thesis by simp
qed

subsection \<open>Dependencies on unknown tasks\<close>

text \<open>
  C8, as stated: a dependency on an id that is no task makes loading fail with a
  \<^verbatim>\<open>MalformedInputError\<close>. The loader has no such check: for a task \<^verbatim>\<open>A\<close> that
  depends on the unknown \<^verbatim>\<open>X\<close> it returns a planner that holds \<^verbatim>\<open>A\<close> and the edge to
  \<^verbatim>\<open>X\<close>, and the failure comes later, from the topological sort.
\<close>

theorem dangling_dependency_is_loaded:
  "load_data depsDangling [] =
     \<lparr>tasks = [\<lparr>task_id = ''A'', size = ''M'', expected_runtime_min = 20,
                depends_on = [''X''], conflicts_with = [], file_patterns = [],
                tags = [], enabler = False\<rparr>],
      dependency_graph = [(''A'', [''X''])],
      reverse_dependency_graph = [(''X'', [''A''])]\<rparr> \<and>
   plan_feeds re_search depsDangling [] = Inl CircularDependency"
  by code_simp

text \<open>
  C8, amended: when some task depends on an id that is no task, loading succeeds
  and keeps the task and the dangling edge; planning then raises
  \<^verbatim>\<open>ValueError("Circular dependency detected!")\<close> from the topological sort, before
  any wave is formed, and returns no plan.
\<close>

theorem dangling_dependency_fails_at_planning:
  assumes "e \<in> set dependencies" and "dep \<in> set (entry_depends_on e)"
    and "dep \<notin> d_task_id ` set dependencies"
  shows "d_task_id e \<in> set (task_ids (load_data dependencies file_patterns_data)) \<and>
         dep \<in> set (graph_get (dependency_graph (load_data dependencies file_patterns_data))
                      (d_task_id e)) \<and>
         plan_feeds rs dependencies file_patterns_data = Inl CircularDependency"
proof -
  let ?reg = "load_data dependencies file_patterns_data"
  have wf: "wf_planner ?reg" by (rule wf_planner_load_data)
  have tin: "d_task_id e \<in> set (task_ids ?reg)" using assms(1) by (simp add: task_ids_load_data)
  have "(d_task_id e, dep) \<in> feed_edges dependencies"
    using assms(1,2) by (auto simp: feed_edges_def)
  then have edge: "dep \<in> set (dg ?reg (d_task_id e))"
    using dep_rel_load_data [of dependencies file_patterns_data] by (auto simp: dep_rel_def)
  have nin: "dep \<notin> set (task_ids ?reg)" using assms(3) by (simp add: task_ids_load_data)
  have miss: "\<And>emitted. kahn_result ?reg emitted \<Longrightarrow> \<exists>t \<in> set (task_ids ?reg). t \<notin> set emitted"
  proof -
    fix emitted assume k: "kahn_result ?reg emitted"
    have "d_task_id e \<notin> set emitted"
    proof
      assume "d_task_id e \<in> set emitted"
      with k have "set (dg ?reg (d_task_id e)) \<subseteq> set emitted"
        by (simp add: kahn_result_def topo_ordered_deps_emitted)
      with edge k have "dep \<in> set (task_ids ?reg)" by (auto simp: kahn_result_def)
      with nin show False by simp
    qed
    with tin show "\<exists>t \<in> set (task_ids ?reg). t \<notin> set emitted" by blast
  qed
  from missing_task_is_circular(3) [OF wf miss, of rs] tin edge show ?thesis
    by (simp add: plan_feeds_def dg_def)
qed

theorem dangling_dependency_fails_at_planning_witness:
  "hd depsDangling \<in> set depsDangling \<and> ''X'' \<in> set (entry_depends_on (hd depsDangling)) \<and>
   ''X'' \<notin> d_task_id ` set depsDangling \<and>
   plan_feeds re_search depsDangling [] = Inl CircularDependency"
proof -
  have h1: "hd depsDangling \<in> set depsDangling" by (simp add: depsDangling_def)
  have h2: "''X'' \<in> set (entry_depends_on (hd depsDangling))"
    by (simp add: depsDangling_def entry_depends_on_def)
  have h3: "''X'' \<notin> d_task_id ` set depsDangling" by (simp add: depsDangling_def)
  from dangling_dependency_fails_at_planning [OF h1 h2 h3, of "[]" re_search] h1 h2 h3
  show ?thesis by simp
qed

section \<open>The wave loop\<close>

lemma pack_wave_admitted:
  "pack_wave rs reg ts (w, u, c) = Inr (w', u', c') \<Longrightarrow>
   \<exists>adm. w' = w @ map to_wave_task adm \<and> u' = u @ map task_id adm \<and>
         c' = c @ map task_id adm \<and> set adm \<subseteq> set ts \<and> (distinct u \<longrightarrow> distinct u')"
proof (induction ts arbitrary: w u c)
  case Nil
  then show ?case by simp
next
  case (Cons t ts)
  show ?case
  proof (cases "task_id t \<in> set u")
    case True
    with Cons.prems have "pack_wave rs reg ts (w, u, c) = Inr (w', u', c')" by simp
    from Cons.IH [OF this] show ?thesis by auto
  next
    case False
    with Cons.prems obtain b where cs: "conflicts_with_selected rs reg t w = Inr b"
      by (auto split: sum.splits)
    show ?thesis
    proof (cases b)
      case True
      with Cons.prems False cs have "pack_wave rs reg ts (w, u, c) = Inr (w', u', c')" by simp
      from Cons.IH [OF this] show ?thesis by auto
    next
      case nb: False
      with Cons.prems False cs have
        "pack_wave rs reg ts (w @ [to_wave_task t], u @ [task_id t], c @ [task_id t]) = Inr (w', u', c')"
        by simp
      from Cons.IH [OF this] obtain adm where
        a: "w' = (w @ [to_wave_task t]) @ map to_wave_task adm"
           "u' = (u @ [task_id t]) @ map task_id adm"
           "c' = (c @ [task_id t]) @ map task_id adm"
           "set adm \<subseteq> set ts"
           "distinct (u @ [task_id t]) \<longrightarrow> distinct u'"
        by blast
      have "w' = w @ map to_wave_task (t # adm) \<and> u' = u @ map task_id (t # adm) \<and>
            c' = c @ map task_id (t # adm) \<and> set (t # adm) \<subseteq> set (t # ts) \<and>
            (distinct u \<longrightarrow> distinct u')"
        using a False by auto
      then show ?thesis by blast
    qed
  qed
qed

lemma next_wave_admitted:
  assumes "next_wave rs reg sorted_tasks ws c = Inr (ws', c')"
  shows "\<exists>adm. adm \<noteq> [] \<and> ws' = ws @ [make_wave (length ws + 1) (map to_wave_task adm)] \<and>
           c' = c @ map task_id adm \<and> distinct (map task_id adm) \<and>
           (\<forall>t \<in> set adm. t \<in> set (tasks reg) \<and> task_id t \<notin> set c \<and>
                set (depends_on t) \<subseteq> set c \<and> get_task reg (task_id t) = Some t)"
proof -
  from assms obtain available w u where
    av: "available_tasks reg c sorted_tasks = Inr available" and
    pk: "pack_wave rs reg (sort_key (\<lambda>t. (length (conflicts_with t), task_id t)) available)
           ([], [], c) = Inr (w, u, c')" and
    ws': "ws' = (if w \<noteq> [] then ws @ [make_wave (length ws + 1) w] else ws)"
    by (auto simp: next_wave_def split: sum.splits if_splits)
  from pack_wave_admitted [OF pk] obtain adm where
    a: "w = map to_wave_task adm" "u = map task_id adm" "c' = c @ map task_id adm"
       "set adm \<subseteq> set available" "distinct u"
    by auto
  from next_wave_progress [OF assms] obtain x where "x \<notin> set c" "x \<in> set c'" by blast
  with a(3) have ne: "adm \<noteq> []" by auto
  have props: "\<forall>t \<in> set adm. t \<in> set (tasks reg) \<and> task_id t \<notin> set c \<and>
          set (depends_on t) \<subseteq> set c \<and> get_task reg (task_id t) = Some t"
    using available_tasks_sound [OF av] a(4) by blast
  have w: "ws' = ws @ [make_wave (length ws + 1) (map to_wave_task adm)]"
    using ws' ne a(1) by simp
  have d: "distinct (map task_id adm)" using a(2,5) by simp
  from ne w a(3) d props show ?thesis by blast
qed

lemma wave_ids_make_wave: "wave_ids (make_wave n (map to_wave_task adm)) = map task_id adm"
  by (simp add: wave_ids_def make_wave_def to_wave_task_def comp_def)

lemma placed_snoc: "placed (ws @ [w]) = placed ws @ wave_ids w"
  by (simp add: placed_def)

lemma plan_inv_step:
  assumes inv: "plan_inv reg ws c" and nw: "next_wave rs reg sorted_tasks ws c = Inr (ws', c')"
  shows "plan_inv reg ws' c'"
proof -
  from next_wave_admitted [OF nw] obtain adm where
    ne: "adm \<noteq> []" and ws': "ws' = ws @ [make_wave (length ws + 1) (map to_wave_task adm)]" and
    c': "c' = c @ map task_id adm" and dist: "distinct (map task_id adm)" and
    props: "\<forall>t \<in> set adm. t \<in> set (tasks reg) \<and> task_id t \<notin> set c \<and>
                set (depends_on t) \<subseteq> set c \<and> get_task reg (task_id t) = Some t"
    by blast
  let ?w = "make_wave (length ws + 1) (map to_wave_task adm)"
  have sc: "set c = set (placed ws)" and dp: "distinct (placed ws)"
    using inv by (simp_all add: plan_inv_def)
  have p': "placed ws' = placed ws @ map task_id adm"
    by (simp add: ws' placed_snoc wave_ids_make_wave)
  have s1: "set c' = set (placed ws')" using sc by (simp add: p' c')
  have s2: "distinct (placed ws')" using dp dist props sc by (auto simp: p')
  have s3: "\<forall>i < length ws'.
         w_tasks (ws' ! i) \<noteq> [] \<and> ws' ! i = make_wave (i + 1) (w_tasks (ws' ! i)) \<and>
         (\<forall>wt \<in> set (w_tasks (ws' ! i)).
            \<exists>t \<in> set (tasks reg). wt = to_wave_task t \<and> get_task reg (task_id t) = Some t \<and>
               set (depends_on t) \<subseteq> set (placed (take i ws')))"
  proof (intro allI impI)
    fix i assume i: "i < length ws'"
    show "w_tasks (ws' ! i) \<noteq> [] \<and> ws' ! i = make_wave (i + 1) (w_tasks (ws' ! i)) \<and>
         (\<forall>wt \<in> set (w_tasks (ws' ! i)).
            \<exists>t \<in> set (tasks reg). wt = to_wave_task t \<and> get_task reg (task_id t) = Some t \<and>
               set (depends_on t) \<subseteq> set (placed (take i ws')))"
    proof (cases "i < length ws")
      case True
      then have "ws' ! i = ws ! i" "take i ws' = take i ws" by (simp_all add: ws' nth_append)
      with inv True show ?thesis by (simp add: plan_inv_def)
    next
      case False
      with i have il: "i = length ws" by (simp add: ws')
      then have wi: "ws' ! i = ?w" and tk: "take i ws' = ws" by (simp_all add: ws')
      have wt: "w_tasks ?w = map to_wave_task adm" by (simp add: make_wave_def)
      have e1: "map to_wave_task adm \<noteq> []" using ne by simp
      have e2: "?w = make_wave (i + 1) (map to_wave_task adm)" using il by simp
      have e3: "\<forall>wt \<in> set (map to_wave_task adm).
            \<exists>t \<in> set (tasks reg). wt = to_wave_task t \<and> get_task reg (task_id t) = Some t \<and>
               set (depends_on t) \<subseteq> set (placed ws)"
        using props sc by auto
      show ?thesis
        unfolding wi tk wt using e1 e2 e3 by blast
    qed
  qed
  show ?thesis unfolding plan_inv_def by (intro conjI s1 s2 s3)
qed

lemma plan_loop_inv:
  "plan_inv reg ws c \<Longrightarrow> plan_loop rs reg sorted_tasks ws c = Inr final \<Longrightarrow>
   plan_inv reg final (task_ids reg)"
proof (induction rs reg sorted_tasks ws c rule: plan_loop.induct)
  case (1 rs reg sorted_tasks ws completed_tasks)
  show ?case
  proof (cases "set completed_tasks = set (task_ids reg)")
    case True
    with "1.prems"(2) have "final = ws" by (simp add: plan_loop.simps)
    with True "1.prems"(1) show ?thesis by (simp add: plan_inv_def)
  next
    case False
    with "1.prems"(2) obtain ws' c' where
      nw: "next_wave rs reg sorted_tasks ws completed_tasks = Inr (ws', c')" and
      rec: "plan_loop rs reg sorted_tasks ws' c' = Inr final"
      by (subst (asm) plan_loop.simps) (auto split: sum.splits)
    from plan_inv_step [OF "1.prems"(1) nw] have "plan_inv reg ws' c'" .
    from "1.IH" [OF False nw refl this rec] show ?thesis .
  qed
qed

lemma plan_inv_initial: "plan_inv reg [] []"
  by (simp add: plan_inv_def placed_def)

lemma generate_execution_plan_inv:
  assumes "generate_execution_plan rs reg = Inr plan"
  shows "plan_inv reg (waves plan) (task_ids reg) \<and>
         plan_summary plan = make_summary reg (waves plan)"
proof (cases "topological_sort_with_priority reg")
  case (Inl e)
  with assms show ?thesis by (simp add: generate_execution_plan_def)
next
  case (Inr sorted_tasks)
  show ?thesis
  proof (cases "plan_loop rs reg sorted_tasks [] []")
    case (Inl e)
    with assms Inr show ?thesis by (simp add: generate_execution_plan_def)
  next
    case pl: (Inr ws)
    with assms Inr have p: "plan = \<lparr>waves = ws, plan_summary = make_summary reg ws\<rparr>"
      by (simp add: generate_execution_plan_def)
    have "plan_inv reg ws (task_ids reg)"
      by (rule plan_loop_inv [OF plan_inv_initial pl])
    then show ?thesis by (simp add: p)
  qed
qed

lemma distinct_concat_disjoint:
  "distinct (concat xss) \<Longrightarrow> i < j \<Longrightarrow> j < length xss \<Longrightarrow> set (xss ! i) \<inter> set (xss ! j) = {}"
proof (induction xss arbitrary: i j)
  case Nil
  then show ?case by simp
next
  case (Cons x xs)
  from Cons.prems(2,3) obtain j' where j: "j = Suc j'" "j' < length xs" by (cases j) auto
  show ?case
  proof (cases i)
    case 0
    have "xs ! j' \<in> set xs" using j(2) by simp
    then have "set (xs ! j') \<subseteq> set (concat xs)" by auto
    with Cons.prems(1) 0 j show ?thesis by auto
  next
    case (Suc i')
    with Cons.IH [of i' j'] Cons.prems j show ?thesis by simp
  qed
qed

lemma distinct_concat_member:
  "distinct (concat xss) \<Longrightarrow> xs \<in> set xss \<Longrightarrow> distinct xs"
  by (induction xss) auto

lemma in_placed_iff: "(x \<in> set (placed ws)) = (\<exists>i < length ws. x \<in> set (wave_ids (ws ! i)))"
proof -
  have "(x \<in> set (placed ws)) = (\<exists>w \<in> set ws. x \<in> set (wave_ids w))"
    by (simp add: placed_def)
  also have "\<dots> = (\<exists>i < length ws. x \<in> set (wave_ids (ws ! i)))"
    by (metis in_set_conv_nth)
  finally show ?thesis .
qed

lemma to_wave_task_fields:
  "wt_task_id (to_wave_task t) = task_id t"
  "wt_expected_runtime_min (to_wave_task t) = expected_runtime_min t"
  by (simp_all add: to_wave_task_def)

lemma conflicts_with_selected_False:
  "conflicts_with_selected rs reg t w = Inr False \<Longrightarrow>
   \<forall>wt \<in> set w. \<exists>s. get_task reg (wt_task_id wt) = Some s \<and> check_file_conflict rs t s = Inr False"
proof (induction w)
  case Nil
  then show ?case by simp
next
  case (Cons wt w)
  from Cons.prems obtain s where s: "get_task reg (wt_task_id wt) = Some s"
    by (auto split: option.splits)
  with Cons.prems obtain b where b: "check_file_conflict rs t s = Inr b"
    by (auto split: sum.splits)
  with Cons.prems s have nb: "b = False" and r: "conflicts_with_selected rs reg t w = Inr False"
    by (auto split: if_splits)
  from Cons.IH [OF r] s b nb show ?case by simp
qed

lemma wave_conflict_free_snoc:
  assumes "wave_conflict_free rs reg w"
    and "get_task reg (wt_task_id wt) = Some t"
    and "\<forall>x \<in> set w. \<exists>s. get_task reg (wt_task_id x) = Some s \<and> check_file_conflict rs t s = Inr False"
  shows "wave_conflict_free rs reg (w @ [wt])"
  unfolding wave_conflict_free_def
proof (intro allI impI)
  fix j i assume j: "j < length (w @ [wt])" and i: "i < j"
  show "\<exists>tj ti. get_task reg (wt_task_id ((w @ [wt]) ! j)) = Some tj \<and>
                get_task reg (wt_task_id ((w @ [wt]) ! i)) = Some ti \<and>
                check_file_conflict rs tj ti = Inr False"
  proof (cases "j < length w")
    case True
    with i assms(1) show ?thesis
      by (simp add: wave_conflict_free_def nth_append)
  next
    case False
    with j have jl: "j = length w" by simp
    with i have "w ! i \<in> set w" by simp
    with assms(3) obtain s where
      "get_task reg (wt_task_id (w ! i)) = Some s" "check_file_conflict rs t s = Inr False"
      by blast
    with jl i assms(2) show ?thesis by (simp add: nth_append)
  qed
qed

lemma pack_wave_conflict_free:
  "pack_wave rs reg ts (w, u, c) = Inr (w', u', c') \<Longrightarrow>
   \<forall>t \<in> set ts. get_task reg (task_id t) = Some t \<Longrightarrow>
   wave_conflict_free rs reg w \<Longrightarrow> wave_conflict_free rs reg w'"
proof (induction ts arbitrary: w u c)
  case Nil
  then show ?case by simp
next
  case (Cons t ts)
  from Cons.prems(2) have rest: "\<forall>t \<in> set ts. get_task reg (task_id t) = Some t"
    and gt: "get_task reg (task_id t) = Some t" by simp_all
  show ?case
  proof (cases "task_id t \<in> set u")
    case True
    with Cons.prems(1) have "pack_wave rs reg ts (w, u, c) = Inr (w', u', c')" by simp
    from Cons.IH [OF this rest Cons.prems(3)] show ?thesis .
  next
    case False
    with Cons.prems(1) obtain b where cs: "conflicts_with_selected rs reg t w = Inr b"
      by (auto split: sum.splits)
    show ?thesis
    proof (cases b)
      case True
      with Cons.prems(1) False cs have "pack_wave rs reg ts (w, u, c) = Inr (w', u', c')" by simp
      from Cons.IH [OF this rest Cons.prems(3)] show ?thesis .
    next
      case nb: False
      with Cons.prems(1) False cs have p:
        "pack_wave rs reg ts (w @ [to_wave_task t], u @ [task_id t], c @ [task_id t]) = Inr (w', u', c')"
        by simp
      from cs nb have "conflicts_with_selected rs reg t w = Inr False" by simp
      from conflicts_with_selected_False [OF this]
      have "wave_conflict_free rs reg (w @ [to_wave_task t])"
        using wave_conflict_free_snoc [OF Cons.prems(3), of "to_wave_task t" t] gt
        by (simp add: to_wave_task_fields)
      from Cons.IH [OF p rest this] show ?thesis .
    qed
  qed
qed

lemma next_wave_conflict_free:
  assumes "next_wave rs reg sorted_tasks ws c = Inr (ws', c')"
    and "\<forall>w \<in> set ws. wave_conflict_free rs reg (w_tasks w)"
  shows "\<forall>w \<in> set ws'. wave_conflict_free rs reg (w_tasks w)"
proof -
  from assms(1) obtain available w u where
    av: "available_tasks reg c sorted_tasks = Inr available" and
    pk: "pack_wave rs reg (sort_key (\<lambda>t. (length (conflicts_with t), task_id t)) available)
           ([], [], c) = Inr (w, u, c')" and
    ws': "ws' = (if w \<noteq> [] then ws @ [make_wave (length ws + 1) w] else ws)"
    by (auto simp: next_wave_def split: sum.splits if_splits)
  have g: "\<forall>t \<in> set (sort_key (\<lambda>t. (length (conflicts_with t), task_id t)) available).
             get_task reg (task_id t) = Some t"
    using available_tasks_sound [OF av] by simp
  have e: "wave_conflict_free rs reg []" by (simp add: wave_conflict_free_def)
  from pack_wave_conflict_free [OF pk g e] have "wave_conflict_free rs reg w" .
  with assms(2) ws' show ?thesis by (auto simp: make_wave_def)
qed

lemma plan_loop_conflict_free:
  "\<forall>w \<in> set ws. wave_conflict_free rs reg (w_tasks w) \<Longrightarrow>
   plan_loop rs reg sorted_tasks ws c = Inr final \<Longrightarrow>
   \<forall>w \<in> set final. wave_conflict_free rs reg (w_tasks w)"
proof (induction rs reg sorted_tasks ws c rule: plan_loop.induct)
  case (1 rs reg sorted_tasks ws completed_tasks)
  show ?case
  proof (cases "set completed_tasks = set (task_ids reg)")
    case True
    with "1.prems"(2) have "final = ws" by (simp add: plan_loop.simps)
    with "1.prems"(1) show ?thesis by simp
  next
    case False
    with "1.prems"(2) obtain ws' c' where
      nw: "next_wave rs reg sorted_tasks ws completed_tasks = Inr (ws', c')" and
      rec: "plan_loop rs reg sorted_tasks ws' c' = Inr final"
      by (subst (asm) plan_loop.simps) (auto split: sum.splits)
    from next_wave_conflict_free [OF nw "1.prems"(1)]
    have "\<forall>w \<in> set ws'. wave_conflict_free rs reg (w_tasks w)" .
    from "1.IH" [OF False nw refl this rec] show ?thesis .
  qed
qed

lemma generate_execution_plan_conflict_free:
  assumes "generate_execution_plan rs reg = Inr plan"
  shows "\<forall>w \<in> set (waves plan). wave_conflict_free rs reg (w_tasks w)"
proof (cases "topological_sort_with_priority reg")
  case (Inl e)
  with assms show ?thesis by (simp add: generate_execution_plan_def)
next
  case (Inr sorted_tasks)
  show ?thesis
  proof (cases "plan_loop rs reg sorted_tasks [] []")
    case (Inl e)
    with assms Inr show ?thesis by (simp add: generate_execution_plan_def)
  next
    case pl: (Inr ws)
    with assms Inr have p: "plan = \<lparr>waves = ws, plan_summary = make_summary reg ws\<rparr>"
      by (simp add: generate_execution_plan_def)
    have "\<forall>w \<in> set ws. wave_conflict_free rs reg (w_tasks w)"
      by (rule plan_loop_conflict_free [OF _ pl]) simp
    then show ?thesis by (simp add: p)
  qed
qed

lemma load_ABC: "load_data depsABC confsABC = regABC"
  by code_simp

lemma plan_ABC: "generate_execution_plan re_search regABC = Inr planABC"
  by code_simp

text \<open>
  C4. In every plan that is produced, each loaded task id lies in exactly one
  wave (and once in it), the waves are numbered 1, 2, ... in order, and every
  dependency of a task placed in wave N lies in a wave with a smaller number.
  It holds for every planner state, in particular for the loaded one.
\<close>

theorem every_task_once_after_its_dependencies:
  assumes "generate_execution_plan rs reg = Inr plan"
  shows "(\<forall>tid \<in> set (task_ids reg).
            \<exists>!i. i < length (waves plan) \<and> tid \<in> set (wave_ids (waves plan ! i))) \<and>
         (\<forall>i < length (waves plan).
            wave_number (waves plan ! i) = i + 1 \<and>
            distinct (wave_ids (waves plan ! i)) \<and>
            set (wave_ids (waves plan ! i)) \<subseteq> set (task_ids reg)) \<and>
         (\<forall>i < length (waves plan). \<forall>tid \<in> set (wave_ids (waves plan ! i)). \<forall>t.
            get_task reg tid = Some t \<longrightarrow>
            (\<forall>dep \<in> set (depends_on t).
               \<exists>j < i. dep \<in> set (wave_ids (waves plan ! j)) \<and>
                        wave_number (waves plan ! j) < wave_number (waves plan ! i)))"
proof -
  let ?ws = "waves plan"
  have inv: "plan_inv reg ?ws (task_ids reg)"
    using generate_execution_plan_inv [OF assms] by simp
  have ids: "set (task_ids reg) = set (placed ?ws)" and dist: "distinct (placed ?ws)"
    using inv by (simp_all add: plan_inv_def)
  have num: "\<And>i. i < length ?ws \<Longrightarrow> wave_number (?ws ! i) = i + 1"
  proof -
    fix i assume "i < length ?ws"
    with inv have "?ws ! i = make_wave (i + 1) (w_tasks (?ws ! i))" by (simp add: plan_inv_def)
    then have "wave_number (?ws ! i) = wave_number (make_wave (i + 1) (w_tasks (?ws ! i)))" by simp
    then show "wave_number (?ws ! i) = i + 1" by (simp add: make_wave_def)
  qed
  have disj: "\<And>i j. i < length ?ws \<Longrightarrow> j < length ?ws \<Longrightarrow> i \<noteq> j \<Longrightarrow>
                set (wave_ids (?ws ! i)) \<inter> set (wave_ids (?ws ! j)) = {}"
  proof -
    fix i j assume a: "i < length ?ws" "j < length ?ws" "i \<noteq> j"
    have d: "distinct (concat (map wave_ids ?ws))" using dist by (simp add: placed_def)
    show "set (wave_ids (?ws ! i)) \<inter> set (wave_ids (?ws ! j)) = {}"
    proof (cases "i < j")
      case True
      with distinct_concat_disjoint [OF d, of i j] a show ?thesis by simp
    next
      case False
      with a have "j < i" by simp
      with distinct_concat_disjoint [OF d, of j i] a show ?thesis by auto
    qed
  qed
  have a: "\<forall>tid \<in> set (task_ids reg). \<exists>!i. i < length ?ws \<and> tid \<in> set (wave_ids (?ws ! i))"
  proof
    fix tid assume "tid \<in> set (task_ids reg)"
    then obtain i where i: "i < length ?ws" "tid \<in> set (wave_ids (?ws ! i))"
      using ids in_placed_iff by auto
    show "\<exists>!i. i < length ?ws \<and> tid \<in> set (wave_ids (?ws ! i))"
    proof (rule ex1I [of _ i])
      show "i < length ?ws \<and> tid \<in> set (wave_ids (?ws ! i))" using i by simp
    next
      fix j assume j: "j < length ?ws \<and> tid \<in> set (wave_ids (?ws ! j))"
      show "j = i"
      proof (rule ccontr)
        assume "j \<noteq> i"
        with disj [of j i] i j show False by auto
      qed
    qed
  qed
  have b: "\<forall>i < length ?ws. wave_number (?ws ! i) = i + 1 \<and> distinct (wave_ids (?ws ! i)) \<and>
             set (wave_ids (?ws ! i)) \<subseteq> set (task_ids reg)"
  proof (intro allI impI conjI)
    fix i assume i: "i < length ?ws"
    show "wave_number (?ws ! i) = i + 1" by (rule num [OF i])
    have "wave_ids (?ws ! i) \<in> set (map wave_ids ?ws)" using i by simp
    then show "distinct (wave_ids (?ws ! i))"
      using dist distinct_concat_member unfolding placed_def by blast
    show "set (wave_ids (?ws ! i)) \<subseteq> set (task_ids reg)"
      using ids in_placed_iff i by auto
  qed
  have c: "\<forall>i < length ?ws. \<forall>tid \<in> set (wave_ids (?ws ! i)). \<forall>t.
            get_task reg tid = Some t \<longrightarrow>
            (\<forall>dep \<in> set (depends_on t).
               \<exists>j < i. dep \<in> set (wave_ids (?ws ! j)) \<and>
                        wave_number (?ws ! j) < wave_number (?ws ! i))"
  proof (intro allI impI ballI)
    fix i tid t dep
    assume i: "i < length ?ws" and tid: "tid \<in> set (wave_ids (?ws ! i))"
      and g: "get_task reg tid = Some t" and dep: "dep \<in> set (depends_on t)"
    from tid obtain wt where wt: "wt \<in> set (w_tasks (?ws ! i))" "tid = wt_task_id wt"
      by (auto simp: wave_ids_def)
    from inv i wt(1) obtain t' where
      t': "wt = to_wave_task t'" "get_task reg (task_id t') = Some t'"
          "set (depends_on t') \<subseteq> set (placed (take i ?ws))"
      unfolding plan_inv_def by blast
    from t'(1,2) wt(2) g have "t' = t" by (simp add: to_wave_task_fields)
    with t'(3) dep have "dep \<in> set (placed (take i ?ws))" by auto
    then obtain j where j: "j < length (take i ?ws)" "dep \<in> set (wave_ids (take i ?ws ! j))"
      using in_placed_iff by blast
    then have ji: "j < i" and dj: "dep \<in> set (wave_ids (?ws ! j))" by simp_all
    from ji i have "wave_number (?ws ! j) < wave_number (?ws ! i)" by (simp add: num)
    with ji dj show "\<exists>j < i. dep \<in> set (wave_ids (?ws ! j)) \<and>
                        wave_number (?ws ! j) < wave_number (?ws ! i)" by blast
  qed
  from a b c show ?thesis by (intro conjI)
qed

theorem every_task_once_after_its_dependencies_witness:
  "generate_execution_plan re_search regABC = Inr planABC \<and>
   ''C'' \<in> set (wave_ids (waves planABC ! 1)) \<and>
   ''A'' \<in> set (wave_ids (waves planABC ! 0)) \<and>
   wave_number (waves planABC ! 0) < wave_number (waves planABC ! 1)"
proof -
  have len: "1 < length (waves planABC)" by (simp add: planABC_def)
  have c: "''C'' \<in> set (wave_ids (waves planABC ! 1))" by (simp add: planABC_def wave_ids_def)
  have g: "get_task regABC ''C'' = Some taskC"
    by (simp add: get_task_def regABC_def taskC_def)
  have d: "''A'' \<in> set (depends_on taskC)" by (simp add: taskC_def)
  note all = every_task_once_after_its_dependencies [OF plan_ABC]
  from all have
    "\<forall>i < length (waves planABC). \<forall>tid \<in> set (wave_ids (waves planABC ! i)). \<forall>t.
        get_task regABC tid = Some t \<longrightarrow>
        (\<forall>dep \<in> set (depends_on t).
           \<exists>j < i. dep \<in> set (wave_ids (waves planABC ! j)) \<and>
                    wave_number (waves planABC ! j) < wave_number (waves planABC ! i))"
    by (elim conjE)
  from this [rule_format, OF len c g d]
  obtain j where "j < 1" and "''A'' \<in> set (wave_ids (waves planABC ! j))"
    and "wave_number (waves planABC ! j) < wave_number (waves planABC ! 1)"
    by (elim exE conjE)
  then have "''A'' \<in> set (wave_ids (waves planABC ! 0))"
    and "wave_number (waves planABC ! 0) < wave_number (waves planABC ! 1)"
    by simp_all
  with plan_ABC c show ?thesis by (intro conjI)
qed

lemma sum_list_remdups_le:
  fixes f :: "'a \<Rightarrow> int"
  assumes "\<forall>x \<in> set xs. 0 \<le> f x"
  shows "sum_list (map f (remdups xs)) \<le> sum_list (map f xs)"
  using assms by (induction xs) auto

lemma sum_set_le_sum_list:
  fixes f :: "'a \<Rightarrow> int"
  assumes "\<forall>x \<in> set xs. 0 \<le> f x"
  shows "sum f (set xs) \<le> sum_list (map f xs)"
proof -
  have "sum f (set xs) = sum_list (map f (remdups xs))"
    by (metis distinct_remdups set_remdups sum_list_distinct_conv_sum_set)
  with sum_list_remdups_le [OF assms] show ?thesis by simp
qed

lemma max_default_le_sum_list:
  fixes xs :: "int list"
  assumes "\<forall>x \<in> set xs. 0 \<le> x"
  shows "max_default xs 0 \<le> sum_list xs"
proof (cases xs)
  case Nil
  then show ?thesis by simp
next
  case (Cons y ys)
  have "\<And>a. 0 \<le> a \<Longrightarrow> \<forall>x \<in> set ys. 0 \<le> x \<Longrightarrow> fold max ys a \<le> a + sum_list ys"
  proof (induction ys)
    case Nil
    then show ?case by simp
  next
    case (Cons z zs)
    have "fold max zs (max z a) \<le> max z a + sum_list zs"
      using Cons.prems by (intro Cons.IH) auto
    also have "\<dots> \<le> a + (z + sum_list zs)" using Cons.prems by auto
    finally show ?case by simp
  qed
  with assms Cons show ?thesis by simp
qed

lemma max_default_is_Max:
  "xs \<noteq> [] \<Longrightarrow> max_default xs d = Max (set xs)"
  by (cases xs) (simp_all add: Max.set_eq_fold [symmetric])

lemma sum_list_map_concat:
  fixes f :: "'a \<Rightarrow> int"
  shows "sum_list (map f (concat xss)) = sum_list (map (\<lambda>xs. sum_list (map f xs)) xss)"
  by (induction xss) simp_all

text \<open>
  C7, as stated: in every produced plan with a wave of several tasks,
  \<open>parallel_time_min \<le> sequential_time_min\<close>. \<open>load_data\<close> takes
  \<^verbatim>\<open>expected_runtime_min\<close> as the feed gives it and checks no sign. For two
  independent tasks with runtimes \<open>-5\<close> and \<open>-3\<close> the plan is one wave of both,
  the wave lasts \<open>max(-5, -3) = -3\<close>, so the parallel time is \<open>-3\<close> and the
  sequential time is \<open>-8\<close>.
\<close>

theorem negative_runtimes_make_parallel_exceed_sequential:
  "plan_feeds re_search depsNeg [] = Inr planNeg \<and>
   map wave_ids (waves planNeg) = [[''A'', ''B'']] \<and>
   map (\<lambda>w. length (w_tasks w)) (waves planNeg) = [2] \<and>
   map estimated_wave_time_min (waves planNeg) = [- 3] \<and>
   parallel_time_min (plan_summary planNeg) = - 3 \<and>
   sequential_time_min (plan_summary planNeg) = - 8 \<and>
   sequential_time_min (plan_summary planNeg) < parallel_time_min (plan_summary planNeg)"
  by code_simp

text \<open>
  C7, amended: in every plan that is produced, each wave is non-empty and its
  duration is the maximum of its members' expected runtimes (each entry carries
  the runtime of the loaded task of its id), \<open>parallel_time_min\<close> is the sum
  of the wave durations, \<open>sequential_time_min\<close> is the sum of all tasks'
  runtimes, and, when no task has a negative expected runtime,
  \<open>parallel_time_min \<le> sequential_time_min\<close>. The inequality then needs no
  wave with several tasks: it holds for every such plan.
\<close>

theorem wave_time_is_max_and_parallel_le_sequential:
  assumes "generate_execution_plan rs reg = Inr plan"
  shows "(\<forall>w \<in> set (waves plan).
            w_tasks w \<noteq> [] \<and>
            estimated_wave_time_min w = Max (set (map wt_expected_runtime_min (w_tasks w))) \<and>
            (\<forall>wt \<in> set (w_tasks w). \<exists>t \<in> set (tasks reg).
                get_task reg (wt_task_id wt) = Some t \<and>
                wt_expected_runtime_min wt = expected_runtime_min t)) \<and>
         parallel_time_min (plan_summary plan) = sum_list (map estimated_wave_time_min (waves plan)) \<and>
         sequential_time_min (plan_summary plan) = sum_list (map expected_runtime_min (tasks reg)) \<and>
         ((\<forall>t \<in> set (tasks reg). 0 \<le> expected_runtime_min t) \<longrightarrow>
            parallel_time_min (plan_summary plan) \<le> sequential_time_min (plan_summary plan))"
proof -
  let ?ws = "waves plan"
  let ?rt = wt_expected_runtime_min
  have inv: "plan_inv reg ?ws (task_ids reg)"
    and summ: "plan_summary plan = make_summary reg ?ws"
    using generate_execution_plan_inv [OF assms] by simp_all
  have wave: "\<And>w. w \<in> set ?ws \<Longrightarrow>
                w_tasks w \<noteq> [] \<and> estimated_wave_time_min w = max_default (map ?rt (w_tasks w)) 0 \<and>
                (\<forall>wt \<in> set (w_tasks w). \<exists>t \<in> set (tasks reg).
                    wt = to_wave_task t \<and> get_task reg (task_id t) = Some t)"
  proof -
    fix w assume "w \<in> set ?ws"
    then obtain i where i: "i < length ?ws" "w = ?ws ! i" by (metis in_set_conv_nth)
    with inv have ne: "w_tasks w \<noteq> []" and mk: "w = make_wave (i + 1) (w_tasks w)"
      and ex: "\<forall>wt \<in> set (w_tasks w). \<exists>t \<in> set (tasks reg).
                  wt = to_wave_task t \<and> get_task reg (task_id t) = Some t"
      unfolding plan_inv_def by blast+
    from mk have "estimated_wave_time_min w
                    = estimated_wave_time_min (make_wave (i + 1) (w_tasks w))" by simp
    then have "estimated_wave_time_min w = max_default (map ?rt (w_tasks w)) 0"
      by (simp add: make_wave_def)
    with ne ex show "w_tasks w \<noteq> [] \<and>
                estimated_wave_time_min w = max_default (map ?rt (w_tasks w)) 0 \<and>
                (\<forall>wt \<in> set (w_tasks w). \<exists>t \<in> set (tasks reg).
                    wt = to_wave_task t \<and> get_task reg (task_id t) = Some t)" by blast
  qed
  have a: "\<forall>w \<in> set ?ws. w_tasks w \<noteq> [] \<and>
             estimated_wave_time_min w = Max (set (map ?rt (w_tasks w))) \<and>
             (\<forall>wt \<in> set (w_tasks w). \<exists>t \<in> set (tasks reg).
                 get_task reg (wt_task_id wt) = Some t \<and> ?rt wt = expected_runtime_min t)"
  proof
    fix w assume w: "w \<in> set ?ws"
    from wave [OF w] have ne: "map ?rt (w_tasks w) \<noteq> []" by simp
    from wave [OF w] max_default_is_Max [OF ne, of 0]
    have m: "w_tasks w \<noteq> [] \<and> estimated_wave_time_min w = Max (set (map ?rt (w_tasks w)))"
      by simp
    have l: "\<forall>wt \<in> set (w_tasks w). \<exists>t \<in> set (tasks reg).
                 get_task reg (wt_task_id wt) = Some t \<and> ?rt wt = expected_runtime_min t"
    proof
      fix wt assume "wt \<in> set (w_tasks w)"
      with wave [OF w] obtain t where
        t: "t \<in> set (tasks reg)" "wt = to_wave_task t" "get_task reg (task_id t) = Some t"
        by blast
      then have "get_task reg (wt_task_id wt) = Some t \<and> ?rt wt = expected_runtime_min t"
        by (simp add: to_wave_task_fields)
      with t(1) show "\<exists>t \<in> set (tasks reg).
                 get_task reg (wt_task_id wt) = Some t \<and> ?rt wt = expected_runtime_min t"
        by blast
    qed
    from m l show "w_tasks w \<noteq> [] \<and>
             estimated_wave_time_min w = Max (set (map ?rt (w_tasks w))) \<and>
             (\<forall>wt \<in> set (w_tasks w). \<exists>t \<in> set (tasks reg).
                 get_task reg (wt_task_id wt) = Some t \<and> ?rt wt = expected_runtime_min t)"
      by (intro conjI) simp_all
  qed
  have b: "parallel_time_min (plan_summary plan) = sum_list (map estimated_wave_time_min ?ws)"
    by (simp add: summ make_summary_def)
  have c: "sequential_time_min (plan_summary plan) = sum_list (map expected_runtime_min (tasks reg))"
    by (simp add: summ make_summary_def)
  have d: "parallel_time_min (plan_summary plan) \<le> sequential_time_min (plan_summary plan)"
    if nonneg: "\<forall>t \<in> set (tasks reg). 0 \<le> expected_runtime_min t"
  proof -
    let ?E = "concat (map w_tasks ?ws)"
    let ?g = "\<lambda>e. the (get_task reg (wt_task_id e))"
    have ent: "\<And>e. e \<in> set ?E \<Longrightarrow>
                 ?g e \<in> set (tasks reg) \<and> ?rt e = expected_runtime_min (?g e) \<and>
                 task_id (?g e) = wt_task_id e"
    proof -
      fix e assume "e \<in> set ?E"
      then obtain w where w: "w \<in> set ?ws" "e \<in> set (w_tasks w)" by auto
      with wave [OF w(1)] obtain t where
        t: "t \<in> set (tasks reg)" "e = to_wave_task t" "get_task reg (task_id t) = Some t"
        by blast
      then have "?g e = t" by (simp add: to_wave_task_fields)
      with t show "?g e \<in> set (tasks reg) \<and> ?rt e = expected_runtime_min (?g e) \<and>
                 task_id (?g e) = wt_task_id e"
        by (simp add: to_wave_task_fields)
    qed
    have s1: "sum_list (map estimated_wave_time_min ?ws)
                \<le> sum_list (map (\<lambda>w. sum_list (map ?rt (w_tasks w))) ?ws)"
    proof (rule sum_list_mono)
      fix w assume w: "w \<in> set ?ws"
      have "\<forall>x \<in> set (map ?rt (w_tasks w)). 0 \<le> x"
      proof
        fix x assume "x \<in> set (map ?rt (w_tasks w))"
        then obtain e where e: "e \<in> set (w_tasks w)" "x = ?rt e" by auto
        with w have "e \<in> set ?E" by auto
        from ent [OF this] nonneg e(2) show "0 \<le> x" by simp
      qed
      from max_default_le_sum_list [OF this] wave [OF w]
      show "estimated_wave_time_min w \<le> sum_list (map ?rt (w_tasks w))" by simp
    qed
    have s2: "sum_list (map (\<lambda>w. sum_list (map ?rt (w_tasks w))) ?ws) = sum_list (map ?rt ?E)"
      by (simp add: sum_list_map_concat comp_def)
    have s3: "map ?rt ?E = map expected_runtime_min (map ?g ?E)"
      using ent by simp
    have ids: "map task_id (map ?g ?E) = placed ?ws"
    proof -
      have "map task_id (map ?g ?E) = map wt_task_id ?E" using ent by simp
      also have "\<dots> = placed ?ws"
        by (simp add: placed_def wave_ids_def [abs_def] map_concat comp_def)
      finally show ?thesis .
    qed
    have "distinct (placed ?ws)" using inv by (simp add: plan_inv_def)
    then have dg: "distinct (map ?g ?E)" using ids by (metis distinct_map)
    have sub: "set (map ?g ?E) \<subseteq> set (tasks reg)" using ent by auto
    have "sum_list (map expected_runtime_min (map ?g ?E)) = sum expected_runtime_min (set (map ?g ?E))"
      using dg by (rule sum_list_distinct_conv_sum_set)
    also have "\<dots> \<le> sum expected_runtime_min (set (tasks reg))"
      using sub nonneg by (intro sum_mono2) auto
    also have "\<dots> \<le> sum_list (map expected_runtime_min (tasks reg))"
      by (rule sum_set_le_sum_list [OF nonneg])
    finally have s4: "sum_list (map ?rt ?E) \<le> sum_list (map expected_runtime_min (tasks reg))"
      by (simp only: s3)
    from s1 s2 s4 show ?thesis unfolding b c by linarith
  qed
  from d have d': "(\<forall>t \<in> set (tasks reg). 0 \<le> expected_runtime_min t) \<longrightarrow>
            parallel_time_min (plan_summary plan) \<le> sequential_time_min (plan_summary plan)"
    by (rule impI)
  from a b c d' show ?thesis by (intro conjI)
qed

theorem wave_time_is_max_and_parallel_le_sequential_witness:
  "generate_execution_plan re_search regABC = Inr planABC \<and>
   list_all (\<lambda>t. 0 \<le> expected_runtime_min t) (tasks regABC) \<and>
   estimated_wave_time_min (waves planABC ! 0) = 30 \<and>
   parallel_time_min (plan_summary planABC) = 50 \<and>
   sequential_time_min (plan_summary planABC) = 60 \<and>
   parallel_time_min (plan_summary planABC) \<le> sequential_time_min (plan_summary planABC)"
proof -
  have n: "list_all (\<lambda>t. 0 \<le> expected_runtime_min t) (tasks regABC)"
    by (simp add: regABC_def taskC_def)
  then have n': "\<forall>t \<in> set (tasks regABC). 0 \<le> expected_runtime_min t"
    by (simp add: list_all_iff)
  note all = wave_time_is_max_and_parallel_le_sequential [OF plan_ABC]
  from all have
    "(\<forall>t \<in> set (tasks regABC). 0 \<le> expected_runtime_min t) \<longrightarrow>
       parallel_time_min (plan_summary planABC) \<le> sequential_time_min (plan_summary planABC)"
    by (elim conjE)
  from this n'
  have le: "parallel_time_min (plan_summary planABC) \<le> sequential_time_min (plan_summary planABC)"
    by (rule mp)
  have v: "estimated_wave_time_min (waves planABC ! 0) = 30"
          "parallel_time_min (plan_summary planABC) = 50"
          "sequential_time_min (plan_summary planABC) = 60"
    by (simp_all add: planABC_def)
  from plan_ABC n v le show ?thesis by (intro conjI)
qed
section \<open>Determinism\<close>

lemma same_sets_get_task: "same_sets reg reg' \<Longrightarrow> get_task reg' = get_task reg"
  by (simp add: same_sets_def get_task_def fun_eq_iff)

lemma same_sets_task_ids: "same_sets reg reg' \<Longrightarrow> task_ids reg' = task_ids reg"
  by (simp add: same_sets_def task_ids_def)

lemma same_sets_length:
  assumes "same_sets reg reg'"
  shows "length (graph_get (dependency_graph reg') k) = length (graph_get (dependency_graph reg) k)"
    and "length (graph_get (reverse_dependency_graph reg') k)
           = length (graph_get (reverse_dependency_graph reg) k)"
  using assms unfolding same_sets_def by (metis size_mset)+

lemma same_sets_initial_in_degree:
  "same_sets reg reg' \<Longrightarrow> initial_in_degree reg' = initial_in_degree reg"
  by (simp add: initial_in_degree_def fun_eq_iff same_sets_task_ids same_sets_length)

lemma same_sets_priority:
  "same_sets reg reg' \<Longrightarrow> get_task_priority reg' = get_task_priority reg"
  by (simp add: get_task_priority_def fun_eq_iff same_sets_length)

lemma priority_of_task_id:
  assumes "tid \<in> set (task_ids reg)"
  shows "snd (get_task_priority reg (the (get_task reg tid))) = tid"
proof -
  from assms have "get_task reg tid \<noteq> None"
    by (auto simp: get_task_def task_ids_def find_None_iff)
  then obtain t where t: "get_task reg tid = Some t" by auto
  from get_task_Some [OF t] t show ?thesis by (simp add: get_task_priority_def)
qed

lemma sort_by_priority_perm:
  assumes ss: "same_sets reg reg'" and sub: "set av \<subseteq> set (task_ids reg)"
    and perm: "mset av' = mset av"
  shows "sort_by_priority reg' av' = sort_by_priority reg av"
proof -
  let ?k = "\<lambda>tid. get_task_priority reg (the (get_task reg tid))"
  have seq: "set av' = set av" using perm by (rule mset_eq_setD)
  have sub': "set av' \<subseteq> set (task_ids reg')"
    using sub seq same_sets_task_ids [OF ss] by simp
  have inj: "inj_on ?k (set av')"
  proof (rule inj_onI)
    fix x y assume x: "x \<in> set av'" and y: "y \<in> set av'" and e: "?k x = ?k y"
    from x y sub seq have xin: "x \<in> set (task_ids reg)" and yin: "y \<in> set (task_ids reg)"
      by auto
    from e have "snd (?k x) = snd (?k y)" by (rule arg_cong)
    then show "x = y"
      by (simp only: priority_of_task_id [OF xin] priority_of_task_id [OF yin])
  qed
  have "sort_key ?k av' = sort_key ?k av"
  proof (rule sort_key_inj_key_eq [OF _ inj])
    show "mset av' = mset (sort_key ?k av)" using perm by simp
    show "sorted (map ?k (sort_key ?k av))" by (rule sorted_sort_key)
  qed
  then have "Inr (sort_key ?k av') = (Inr (sort_key ?k av) :: py_error + string list)"
    by (rule arg_cong)
  then show ?thesis
    unfolding sort_by_priority_ok [OF sub] sort_by_priority_ok [OF sub']
              same_sets_priority [OF ss] same_sets_get_task [OF ss] .
qed

lemma topo_loop_same_sets:
  "wf_planner reg \<Longrightarrow> same_sets reg reg' \<Longrightarrow> set av \<subseteq> set (task_ids reg) \<Longrightarrow>
   mset av' = mset av \<Longrightarrow> topo_loop reg' av' f res = topo_loop reg av f res"
proof (induction reg av f res arbitrary: av' rule: topo_loop.induct)
  case (1 reg available in_degree result)
  note wf = "1.prems"(1) and ss = "1.prems"(2) and sub = "1.prems"(3) and perm = "1.prems"(4)
  show ?case
  proof (cases "available = []")
    case True
    with perm have "av' = []" by simp
    with True show ?thesis by (simp add: topo_loop.simps)
  next
    case False
    with perm have ne': "av' \<noteq> []" by auto
    let ?ord = "sort_key (\<lambda>tid. get_task_priority reg (the (get_task reg tid))) available"
    have srt: "sort_by_priority reg available = Inr ?ord" by (rule sort_by_priority_ok [OF sub])
    have srt': "sort_by_priority reg' av' = Inr ?ord"
      using sort_by_priority_perm [OF ss sub perm] srt by simp
    have "?ord \<noteq> []" using False by (metis length_0_conv length_sort)
    then obtain cur rest where ord: "?ord = cur # rest" by (cases ?ord) auto
    let ?ds = "graph_get (reverse_dependency_graph reg) cur"
    let ?ds' = "graph_get (reverse_dependency_graph reg') cur"
    have mds: "mset ?ds' = mset ?ds" using ss by (simp add: same_sets_def)
    have dds: "distinct ?ds" using wf by (simp add: wf_planner_def)
    then have dds': "distinct ?ds'" using mds by (metis mset_eq_imp_distinct_iff)
    have sds: "set ?ds' = set ?ds" using mds by (rule mset_eq_setD)
    let ?f = "\<lambda>t. if t \<in> set ?ds then in_degree t - 1 else in_degree t"
    let ?av = "rest @ filter (\<lambda>d. in_degree d = 1) ?ds"
    let ?av' = "rest @ filter (\<lambda>d. in_degree d = 1) ?ds'"
    have upd: "update_in_degrees ?ds (in_degree, rest) = (?f, ?av)"
      by (rule update_in_degrees_distinct [OF dds])
    have upd': "update_in_degrees ?ds' (in_degree, rest) = (?f, ?av')"
      using update_in_degrees_distinct [OF dds', of in_degree rest] by (simp add: sds)
    have ds_ids: "set ?ds \<subseteq> set (task_ids reg)"
    proof
      fix t assume "t \<in> set ?ds"
      then have "cur \<in> set (graph_get (dependency_graph reg) t)"
        using wf by (simp add: wf_planner_def)
      then have "graph_get (dependency_graph reg) t \<noteq> []" by auto
      then show "t \<in> set (task_ids reg)" using wf by (simp add: wf_planner_def)
    qed
    have "set (cur # rest) = set available" using ord by (metis set_sort)
    then have sub2: "set ?av \<subseteq> set (task_ids reg)" using sub ds_ids by auto
    have perm2: "mset ?av' = mset ?av" using mds by (simp add: mset_filter)
    have ih: "topo_loop reg' ?av' ?f (result @ [cur]) = topo_loop reg ?av ?f (result @ [cur])"
      by (rule "1.IH" [OF False srt ord upd [symmetric] wf ss sub2 perm2])
    have l: "topo_loop reg available in_degree result = topo_loop reg ?av ?f (result @ [cur])"
      using False srt ord upd by (subst topo_loop.simps) simp
    have r: "topo_loop reg' av' in_degree result = topo_loop reg' ?av' ?f (result @ [cur])"
      using ne' srt' ord upd' by (subst topo_loop.simps) simp
    from l r ih show ?thesis by simp
  qed
qed

lemma topological_sort_same_sets:
  assumes "wf_planner reg" and "same_sets reg reg'"
  shows "topological_sort_with_priority reg' = topological_sort_with_priority reg"
proof -
  let ?av = "filter (\<lambda>tid. initial_in_degree reg tid = 0) (task_ids reg)"
  have tl: "topo_loop reg' ?av (initial_in_degree reg) [] = topo_loop reg ?av (initial_in_degree reg) []"
    by (rule topo_loop_same_sets [OF assms]) auto
  have t: "tasks reg' = tasks reg" using assms(2) by (simp add: same_sets_def)
  show ?thesis
    unfolding topological_sort_with_priority_def same_sets_initial_in_degree [OF assms(2)]
              same_sets_task_ids [OF assms(2)] tl t
    by (rule refl)
qed

lemma available_tasks_same_tasks:
  "get_task reg' = get_task reg \<Longrightarrow> available_tasks reg' c tids = available_tasks reg c tids"
  by (induction tids) (simp_all split: option.splits)

lemma conflicts_with_selected_same_tasks:
  "get_task reg' = get_task reg \<Longrightarrow>
   conflicts_with_selected rs reg' t sel = conflicts_with_selected rs reg t sel"
  by (induction sel) (simp_all split: option.splits sum.splits)

lemma pack_wave_same_tasks:
  "get_task reg' = get_task reg \<Longrightarrow> pack_wave rs reg' ts st = pack_wave rs reg ts st"
proof (induction ts arbitrary: st)
  case Nil
  then show ?case by simp
next
  case (Cons t ts)
  obtain w u c where st: "st = (w, u, c)" by (cases st)
  show ?case
    unfolding st pack_wave.simps Cons.IH [OF Cons.prems]
              conflicts_with_selected_same_tasks [OF Cons.prems]
    by (rule refl)
qed

lemma next_wave_same_tasks:
  assumes "get_task reg' = get_task reg"
  shows "next_wave rs reg' sorted_tasks ws c = next_wave rs reg sorted_tasks ws c"
  unfolding next_wave_def available_tasks_same_tasks [OF assms] pack_wave_same_tasks [OF assms]
  by (rule refl)

lemma plan_loop_same_tasks:
  "get_task reg' = get_task reg \<Longrightarrow> task_ids reg' = task_ids reg \<Longrightarrow>
   plan_loop rs reg' sorted_tasks ws c = plan_loop rs reg sorted_tasks ws c"
proof (induction rs reg sorted_tasks ws c rule: plan_loop.induct)
  case (1 rs reg sorted_tasks ws completed_tasks)
  note gt = "1.prems"(1) and ids = "1.prems"(2)
  show ?case
  proof (cases "set completed_tasks = set (task_ids reg)")
    case True
    then show ?thesis by (simp add: plan_loop.simps ids)
  next
    case False
    show ?thesis
    proof (cases "next_wave rs reg sorted_tasks ws completed_tasks")
      case (Inl e)
      with False show ?thesis
        by (simp add: plan_loop.simps [of rs reg] plan_loop.simps [of rs reg'] ids
                      next_wave_same_tasks [OF gt])
    next
      case (Inr p)
      obtain ws' c' where p: "p = (ws', c')" by (cases p)
      have ih: "plan_loop rs reg' sorted_tasks ws' c' = plan_loop rs reg sorted_tasks ws' c'"
        using "1.IH" [OF False Inr p [symmetric] gt ids] .
      have l: "plan_loop rs reg sorted_tasks ws completed_tasks = plan_loop rs reg sorted_tasks ws' c'"
        using False Inr p by (subst plan_loop.simps) simp
      have r: "plan_loop rs reg' sorted_tasks ws completed_tasks = plan_loop rs reg' sorted_tasks ws' c'"
        using False Inr p ids next_wave_same_tasks [OF gt, of rs sorted_tasks ws completed_tasks]
        by (subst plan_loop.simps) simp
      from l r ih show ?thesis by simp
    qed
  qed
qed

lemma generate_execution_plan_same_sets:
  assumes "wf_planner reg" and "same_sets reg reg'"
  shows "generate_execution_plan rs reg' = generate_execution_plan rs reg"
proof -
  have ms: "make_summary reg' = make_summary reg"
    using assms(2) by (simp add: make_summary_def same_sets_def fun_eq_iff)
  have pl: "plan_loop rs reg' = plan_loop rs reg"
    using plan_loop_same_tasks [OF same_sets_get_task [OF assms(2)] same_sets_task_ids [OF assms(2)]]
    by (simp add: fun_eq_iff)
  show ?thesis
    unfolding generate_execution_plan_def topological_sort_same_sets [OF assms] ms pl
    by (rule refl)
qed

text \<open>
  C6. Every function of the model is a function of the two feeds, so two runs
  can differ only where Python leaves a choice open: the iteration order of
  the sets of the two graphs (the dictionaries iterate in insertion order).
  The plan does not depend on it: planning from any state that holds the
  loaded tasks and, key by key, the loaded sets in some order gives the result
  of planning from the loaded state, the same waves, the same order inside
  each wave and the same summary, or the same exception. The two sorts, by
  \<^verbatim>\<open>(-dependent_count, task_id)\<close> and by \<^verbatim>\<open>(len(conflicts_with), task_id)\<close>, are what
  makes it so.
\<close>

theorem planning_is_deterministic:
  assumes "same_sets (load_data dependencies file_patterns_data) reg'"
  shows "generate_execution_plan rs reg' = plan_feeds rs dependencies file_patterns_data"
  unfolding plan_feeds_def
  by (rule generate_execution_plan_same_sets [OF wf_planner_load_data assms])

lemma load_Fan: "load_data depsFan [] = regFan"
  by code_simp

theorem planning_is_deterministic_witness:
  "same_sets (load_data depsFan []) regFan' \<and>
   reverse_dependency_graph regFan' \<noteq> reverse_dependency_graph (load_data depsFan []) \<and>
   generate_execution_plan re_search regFan' = plan_feeds re_search depsFan []"
proof -
  have m: "mset [''B'', ''C''] = mset [''C'', ''B'']" by (simp add: add_mset_commute)
  have h: "same_sets (load_data depsFan []) regFan'"
    unfolding load_Fan by (simp add: same_sets_def regFan'_def regFan_def graph_get_def m)
  have n: "reverse_dependency_graph regFan' \<noteq> reverse_dependency_graph (load_data depsFan [])"
    unfolding load_Fan by (simp add: regFan'_def regFan_def)
  from planning_is_deterministic [OF h, of re_search] h n show ?thesis by simp
qed
section \<open>Explicit conflicts\<close>

lemma explicit_conflict_is_honoured_by_the_check:
  "task_id task1 \<noteq> task_id task2 \<Longrightarrow>
   task_id task2 \<in> set (conflicts_with task1) \<or> task_id task1 \<in> set (conflicts_with task2) \<Longrightarrow>
   check_file_conflict rs task1 task2 = Inr True"
  by (auto simp: check_file_conflict_def)

lemma put_task_conflicts_with:
  "conflicts_with t = [] \<Longrightarrow> \<forall>u \<in> set ts. conflicts_with u = [] \<Longrightarrow>
   \<forall>u \<in> set (put_task t ts). conflicts_with u = []"
  by (induction ts) auto

lemma foldl_add_task_conflicts_with:
  "\<forall>u \<in> set (tasks reg). conflicts_with u = [] \<Longrightarrow>
   \<forall>u \<in> set (tasks (foldl (\<lambda>r e. add_task r (make_task m e)) reg ds)). conflicts_with u = []"
proof (induction ds arbitrary: reg)
  case Nil
  then show ?case by simp
next
  case (Cons e ds)
  have "\<forall>u \<in> set (tasks (add_task reg (make_task m e))). conflicts_with u = []"
    using put_task_conflicts_with [OF make_task_fields(3) Cons.prems, of m e]
    by (simp add: add_task_def tasks_add_edges)
  from Cons.IH [OF this] show ?case by simp
qed

lemma load_data_conflicts_with_empty:
  "t \<in> set (tasks (load_data dependencies file_patterns_data)) \<Longrightarrow> conflicts_with t = []"
  using foldl_add_task_conflicts_with
          [of empty_planner "build_file_pattern_map file_patterns_data" dependencies]
  by (simp add: load_data_def empty_planner_def)

lemma foldl_pattern_map_cong:
  "map c_task_id confs' = map c_task_id confs \<Longrightarrow> map c_files confs' = map c_files confs \<Longrightarrow>
   foldl (\<lambda>m e. AList.update (c_task_id e)
                   (concat (map to_patterns (case c_files e of None \<Rightarrow> [] | Some fs \<Rightarrow> fs))) m)
         m0 confs'
   = foldl (\<lambda>m e. AList.update (c_task_id e)
                   (concat (map to_patterns (case c_files e of None \<Rightarrow> [] | Some fs \<Rightarrow> fs))) m)
         m0 confs"
proof (induction confs arbitrary: confs' m0)
  case Nil
  then show ?case by simp
next
  case (Cons e confs)
  from Cons.prems(1) obtain e' rest where c: "confs' = e' # rest" by (cases confs') auto
  with Cons.prems have h: "c_task_id e' = c_task_id e" "c_files e' = c_files e"
    "map c_task_id rest = map c_task_id confs" "map c_files rest = map c_files confs"
    by simp_all
  from Cons.IH [OF h(3,4)] h(1,2) c show ?case by simp
qed

lemma load_data_reads_ids_and_files:
  "map c_task_id confs' = map c_task_id confs \<Longrightarrow> map c_files confs' = map c_files confs \<Longrightarrow>
   load_data deps confs' = load_data deps confs"
  using foldl_pattern_map_cong [of confs' confs "[]"]
  by (simp add: load_data_def build_file_pattern_map_def)

text \<open>
  C1, as stated: a conflict declared in the conflict feed keeps the two tasks out
  of a common wave, so that for A, B (conflicts with A) and C (depends on A) the
  plan is wave 1 = {A}, wave 2 = {B, C}. \<^verbatim>\<open>load_data\<close> builds every task with
  \<^verbatim>\<open>conflicts_with=[]\<close> (its comment: to be computed from file patterns) and
  reads only \<^verbatim>\<open>task_id\<close> and \<^verbatim>\<open>files\<close> from the conflict feed. On the three-task
  input, which names no file, the declared conflict of B with A plays no part
  and the plan is wave 1 = {A, B}, wave 2 = {C}.
\<close>

theorem declared_conflict_is_dropped_by_the_loader:
  "c_task_id (confsABC ! 1) = ''B'' \<and> c_conflicts_with (confsABC ! 1) = [''A''] \<and>
   map conflicts_with (tasks (load_data depsABC confsABC)) = [[], [], []] \<and>
   plan_feeds re_search depsABC confsABC = Inr planABC \<and>
   map wave_ids (waves planABC) = [[''A'', ''B''], [''C'']] \<and>
   map wave_ids (waves planABC) \<noteq> [[''A''], [''B'', ''C'']] \<and>
   total_waves (plan_summary planABC) = 2 \<and> max_parallelism (plan_summary planABC) = 2"
  unfolding plan_feeds_def load_ABC plan_ABC
  by (simp add: confsABC_def regABC_def taskC_def planABC_def wave_ids_def)

text \<open>
  C1, amended: the conflicts declared in the conflict feed are not loaded. Two
  conflict feeds that agree, entry by entry, on \<^verbatim>\<open>task_id\<close> and \<^verbatim>\<open>files\<close> give the
  same plan (or the same error) whatever conflicts they declare; every loaded
  task has an empty \<^verbatim>\<open>conflicts_with\<close>; and in every produced plan each entry of a
  wave and each entry before it in that wave are two distinct loaded tasks
  between whose file patterns, taken later against earlier, the pattern check
  found no conflict. Conflicts between loaded tasks thus come from file
  patterns alone. (On a \<^verbatim>\<open>Task\<close> whose \<^verbatim>\<open>conflicts_with\<close> is filled in, the check
  does answer true in either direction: lemma
  \<open>explicit_conflict_is_honoured_by_the_check\<close>.)
\<close>

theorem declared_conflicts_are_not_loaded:
  assumes "map c_task_id confs' = map c_task_id confs"
      and "map c_files confs' = map c_files confs"
  shows "plan_feeds rs deps confs' = plan_feeds rs deps confs \<and>
         (\<forall>t \<in> set (tasks (load_data deps confs)). conflicts_with t = []) \<and>
         (\<forall>plan. plan_feeds rs deps confs = Inr plan \<longrightarrow>
            (\<forall>w \<in> set (waves plan). \<forall>j < length (w_tasks w). \<forall>i < j.
               \<exists>tj ti. get_task (load_data deps confs) (wt_task_id (w_tasks w ! j)) = Some tj \<and>
                       get_task (load_data deps confs) (wt_task_id (w_tasks w ! i)) = Some ti \<and>
                       task_id tj \<noteq> task_id ti \<and>
                       any_conflict (\<lambda>(pattern1, pattern2). patterns_conflict rs pattern1 pattern2)
                         (List.product (file_patterns tj) (file_patterns ti)) = Inr False))"
proof -
  let ?reg = "load_data deps confs"
  have a: "plan_feeds rs deps confs' = plan_feeds rs deps confs"
    using load_data_reads_ids_and_files [OF assms, of deps] by (simp add: plan_feeds_def)
  have b: "\<forall>t \<in> set (tasks ?reg). conflicts_with t = []"
    using load_data_conflicts_with_empty by blast
  have c: "\<forall>w \<in> set (waves plan). \<forall>j < length (w_tasks w). \<forall>i < j.
               \<exists>tj ti. get_task ?reg (wt_task_id (w_tasks w ! j)) = Some tj \<and>
                       get_task ?reg (wt_task_id (w_tasks w ! i)) = Some ti \<and>
                       task_id tj \<noteq> task_id ti \<and>
                       any_conflict (\<lambda>(pattern1, pattern2). patterns_conflict rs pattern1 pattern2)
                         (List.product (file_patterns tj) (file_patterns ti)) = Inr False"
    if p: "plan_feeds rs deps confs = Inr plan" for plan
  proof (intro ballI allI impI)
    fix w j i assume w: "w \<in> set (waves plan)" and j: "j < length (w_tasks w)" and i: "i < j"
    from p have g: "generate_execution_plan rs ?reg = Inr plan" by (simp add: plan_feeds_def)
    from generate_execution_plan_conflict_free [OF g] w
    have "wave_conflict_free rs ?reg (w_tasks w)" by simp
    with j i obtain tj ti where
      t: "get_task ?reg (wt_task_id (w_tasks w ! j)) = Some tj"
         "get_task ?reg (wt_task_id (w_tasks w ! i)) = Some ti"
         "check_file_conflict rs tj ti = Inr False"
      unfolding wave_conflict_free_def by blast
    from generate_execution_plan_inv [OF g] have "distinct (placed (waves plan))"
      by (simp add: plan_inv_def)
    then have "distinct (wave_ids w)" using w
      unfolding placed_def by (metis distinct_concat_iff imageI list.set_map)
    then have "distinct (map wt_task_id (w_tasks w))" by (simp add: wave_ids_def)
    with j i have "wt_task_id (w_tasks w ! j) \<noteq> wt_task_id (w_tasks w ! i)"
      by (simp add: distinct_conv_nth)
    with get_task_Some [OF t(1)] get_task_Some [OF t(2)]
    have ne: "task_id tj \<noteq> task_id ti" and mem: "tj \<in> set (tasks ?reg)" "ti \<in> set (tasks ?reg)"
      by simp_all
    from mem b have "conflicts_with tj = []" "conflicts_with ti = []" by simp_all
    with t(3) ne have
      "any_conflict (\<lambda>(pattern1, pattern2). patterns_conflict rs pattern1 pattern2)
         (List.product (file_patterns tj) (file_patterns ti)) = Inr False"
      by (simp add: check_file_conflict_def)
    with t(1,2) ne show
      "\<exists>tj ti. get_task ?reg (wt_task_id (w_tasks w ! j)) = Some tj \<and>
               get_task ?reg (wt_task_id (w_tasks w ! i)) = Some ti \<and>
               task_id tj \<noteq> task_id ti \<and>
               any_conflict (\<lambda>(pattern1, pattern2). patterns_conflict rs pattern1 pattern2)
                 (List.product (file_patterns tj) (file_patterns ti)) = Inr False"
      by blast
  qed
  from a b c show ?thesis by blast
qed

theorem declared_conflicts_are_not_loaded_witness:
  "map c_task_id confsNone = map c_task_id confsABC \<and>
   map c_files confsNone = map c_files confsABC \<and>
   map c_conflicts_with confsABC = [[], [''A''], []] \<and>
   map c_conflicts_with confsNone = [[], [], []] \<and>
   plan_feeds re_search depsABC confsNone = plan_feeds re_search depsABC confsABC \<and>
   plan_feeds re_search depsABC confsABC = Inr planABC \<and>
   list_all (\<lambda>t. conflicts_with t = []) (tasks (load_data depsABC confsABC)) \<and>
   map wave_ids (waves planABC) = [[''A'', ''B''], [''C'']] \<and>
   total_waves (plan_summary planABC) = 2 \<and> max_parallelism (plan_summary planABC) = 2 \<and>
   (\<exists>tj ti. get_task (load_data depsABC confsABC) ''B'' = Some tj \<and>
            get_task (load_data depsABC confsABC) ''A'' = Some ti \<and>
            task_id tj \<noteq> task_id ti \<and>
            any_conflict (\<lambda>(pattern1, pattern2). patterns_conflict re_search pattern1 pattern2)
              (List.product (file_patterns tj) (file_patterns ti)) = Inr False)"
proof -
  have h1: "map c_task_id confsNone = map c_task_id confsABC"
    by (simp add: confsNone_def confsABC_def)
  have h2: "map c_files confsNone = map c_files confsABC"
    by (simp add: confsNone_def confsABC_def)
  have d: "map c_conflicts_with confsABC = [[], [''A''], []] \<and>
           map c_conflicts_with confsNone = [[], [], []]"
    by (simp add: confsNone_def confsABC_def)
  have p: "plan_feeds re_search depsABC confsABC = Inr planABC"
    unfolding plan_feeds_def load_ABC by (rule plan_ABC)
  have ids: "map wave_ids (waves planABC) = [[''A'', ''B''], [''C'']] \<and>
             total_waves (plan_summary planABC) = 2 \<and> max_parallelism (plan_summary planABC) = 2"
    by (simp add: planABC_def wave_ids_def)
  have w0: "waves planABC ! 0 \<in> set (waves planABC)" by (simp add: planABC_def)
  have l: "(1::nat) < length (w_tasks (waves planABC ! 0))" by (simp add: planABC_def)
  note all = declared_conflicts_are_not_loaded [OF h1 h2, of re_search depsABC]
  from all have a: "plan_feeds re_search depsABC confsNone = plan_feeds re_search depsABC confsABC"
    by (elim conjE)
  from all have "\<forall>t \<in> set (tasks (load_data depsABC confsABC)). conflicts_with t = []"
    by (elim conjE)
  then have b: "list_all (\<lambda>t. conflicts_with t = []) (tasks (load_data depsABC confsABC))"
    by (simp add: list_all_iff)
  from all have
    "\<forall>plan. plan_feeds re_search depsABC confsABC = Inr plan \<longrightarrow>
       (\<forall>w \<in> set (waves plan). \<forall>j < length (w_tasks w). \<forall>i < j.
          \<exists>tj ti. get_task (load_data depsABC confsABC) (wt_task_id (w_tasks w ! j)) = Some tj \<and>
                  get_task (load_data depsABC confsABC) (wt_task_id (w_tasks w ! i)) = Some ti \<and>
                  task_id tj \<noteq> task_id ti \<and>
                  any_conflict (\<lambda>(pattern1, pattern2). patterns_conflict re_search pattern1 pattern2)
                    (List.product (file_patterns tj) (file_patterns ti)) = Inr False)"
    by (elim conjE)
  from this [rule_format, OF p w0 l, of 0]
  have c: "\<exists>tj ti. get_task (load_data depsABC confsABC) (wt_task_id (w_tasks (waves planABC ! 0) ! 1)) = Some tj \<and>
            get_task (load_data depsABC confsABC) (wt_task_id (w_tasks (waves planABC ! 0) ! 0)) = Some ti \<and>
            task_id tj \<noteq> task_id ti \<and>
            any_conflict (\<lambda>(pattern1, pattern2). patterns_conflict re_search pattern1 pattern2)
              (List.product (file_patterns tj) (file_patterns ti)) = Inr False"
    by simp
  have e: "wt_task_id (w_tasks (waves planABC ! 0) ! 1) = ''B''"
          "wt_task_id (w_tasks (waves planABC ! 0) ! 0) = ''A''"
    by (simp_all add: planABC_def)
  from c have c': "\<exists>tj ti. get_task (load_data depsABC confsABC) ''B'' = Some tj \<and>
            get_task (load_data depsABC confsABC) ''A'' = Some ti \<and>
            task_id tj \<noteq> task_id ti \<and>
            any_conflict (\<lambda>(pattern1, pattern2). patterns_conflict re_search pattern1 pattern2)
              (List.product (file_patterns tj) (file_patterns ti)) = Inr False"
    unfolding e .
  from h1 h2 d a p b ids c' show ?thesis by (intro conjI) (elim conjE, assumption)+
qed

end
